theory Spec2Isabelle
  imports Main "HOL-Library.Word"
begin

unbundle bit_operations_syntax

section \<open>Contexts: key lists, var lists and the heap (c-frame.c)\<close>

text \<open>
  A context is a pair of arrays: the varlist (the context handle is the varlist pointer) and
  the keylist it links to. Arrays are heap nodes; a pointer is an index into the heap, so
  pointer identity is equality of addresses. The model tracks the live cells of an array
  (indices below \<open>ARR_LEN\<close>); allocated capacity beyond the length is not tracked, so
  \<open>Extend_Series\<close>, which only reserves capacity, leaves a node as it is.
\<close>

type_synonym addr = nat
type_synonym sym = nat

text \<open>A typeset cell, as \<open>Val_Init_Typeset\<close> makes it: symbol, 64 type bits, and the
  flags \<open>TYPESET_FLAG_HIDDEN\<close>, \<open>TYPESET_FLAG_LOCKED\<close>, \<open>TYPESET_FLAG_LOOKBACK\<close>.\<close>

record key =
  k_sym :: sym
  k_bits :: "64 word"
  k_hidden :: bool
  k_locked :: bool
  k_lookback :: bool

datatype kind = REB_OBJECT | REB_MODULE | REB_ERROR | REB_PORT | REB_FRAME

text \<open>Values held by a varlist. \<open>AnyContext k v e\<close> is an ANY-CONTEXT! cell of kind \<open>k\<close> whose
  payload points at varlist \<open>v\<close>, with exit-from pointer \<open>e\<close>. \<open>Opaque n\<close> stands for a cell of
  any other datatype, \<open>Trash\<close> for a cell that has not been written yet.\<close>

datatype val =
  Void
  | Blank
  | Integer int
  | AnyContext kind addr "addr option"
  | Opaque nat
  | Trash

record keylist =
  kl_keys :: "key list"
  kl_shared :: bool
  kl_managed :: bool
  kl_meta :: "addr option"

record varlist =
  vl_vars :: "val list"
  vl_keylist :: "addr option"
  vl_context :: bool
  vl_locked :: bool

datatype node = KL keylist | VL varlist

type_synonym heap = "node list"

text \<open>Failures. \<open>Bad_Pointer\<close> and \<open>Out_Of_Bounds\<close> mark what is undefined behaviour in C
  (a pointer that is no array of the heap, a read or write outside the cells of an array);
  \<open>Assert_Failed\<close> is a failed \<open>assert\<close>; the others are the \<open>fail (...)\<close> exits.\<close>

datatype error =
  Bad_Pointer
  | Out_Of_Bounds
  | Out_Of_Memory
  | Assert_Failed
  | Dup_Vars sym
  | Locked_Context
  | Read_Only_Series
  | Index_Codepoint_Modify
  | Index_Codepoint_Insert
  | UTF8_Check_Not_Implemented
  | Out_Of_Range

definition bind_e :: "error + 'a \<Rightarrow> ('a \<Rightarrow> error + 'b) \<Rightarrow> error + 'b" where
  "bind_e m f = (case m of Inl e \<Rightarrow> Inl e | Inr x \<Rightarrow> f x)"

definition get_keylist :: "heap \<Rightarrow> addr \<Rightarrow> error + keylist" where
  "get_keylist h a =
     (if a < length h then (case h ! a of KL k \<Rightarrow> Inr k | VL _ \<Rightarrow> Inl Bad_Pointer)
      else Inl Bad_Pointer)"

definition get_varlist :: "heap \<Rightarrow> addr \<Rightarrow> error + varlist" where
  "get_varlist h a =
     (if a < length h then (case h ! a of VL v \<Rightarrow> Inr v | KL _ \<Rightarrow> Inl Bad_Pointer)
      else Inl Bad_Pointer)"

text \<open>Allocation of a new series node: the new pointer is the next free heap index.\<close>

definition alloc :: "heap \<Rightarrow> node \<Rightarrow> heap \<times> addr" where
  "alloc h n = (h @ [n], length h)"

text \<open>\<open>CTX_KEYLIST(c)\<close>: the keylist the varlist links to.\<close>

definition CTX_KEYLIST :: "heap \<Rightarrow> addr \<Rightarrow> error + addr" where
  "CTX_KEYLIST h c =
     bind_e (get_varlist h c) (\<lambda>v.
       case vl_keylist v of None \<Rightarrow> Inl Bad_Pointer | Some k \<Rightarrow> Inr k)"

text \<open>Modelled from the spec: the macros \<open>INIT_CTX_KEYLIST_SHARED\<close> and
  \<open>INIT_CTX_KEYLIST_UNIQUE\<close> are declared in a header that is not part of the sources.
  Sharing marks the key list itself SHARED (so every holder sees the mark) and links it;
  the unique form only links the key list.\<close>

definition INIT_CTX_KEYLIST_SHARED :: "heap \<Rightarrow> addr \<Rightarrow> addr \<Rightarrow> error + heap" where
  "INIT_CTX_KEYLIST_SHARED h c k =
     bind_e (get_keylist h k) (\<lambda>kl.
     let h1 = h[k := KL (kl\<lparr>kl_shared := True\<rparr>)] in
     bind_e (get_varlist h1 c) (\<lambda>v.
       Inr (h1[c := VL (v\<lparr>vl_keylist := Some k\<rparr>)])))"

definition INIT_CTX_KEYLIST_UNIQUE :: "heap \<Rightarrow> addr \<Rightarrow> addr \<Rightarrow> error + heap" where
  "INIT_CTX_KEYLIST_UNIQUE h c k =
     bind_e (get_varlist h c) (\<lambda>v.
       Inr (h[c := VL (v\<lparr>vl_keylist := Some k\<rparr>)]))"

text \<open>Modelled from the spec: \<open>Copy_Array_Shallow\<close> and \<open>Copy_Array_Extra_Shallow\<close> (series
  primitive "shallow-copy-with-extra-capacity") make a new, unmanaged array node holding the
  same cells; the extra capacity is not tracked. The copy carries no keylist flag, no meta
  and no link of its own.\<close>

definition Copy_Array_Extra_Shallow_keys :: "heap \<Rightarrow> addr \<Rightarrow> nat \<Rightarrow> error + (heap \<times> addr)" where
  "Copy_Array_Extra_Shallow_keys h a extra =
     bind_e (get_keylist h a) (\<lambda>kl.
       Inr (alloc h (KL \<lparr>kl_keys = kl_keys kl, kl_shared = False, kl_managed = False,
                         kl_meta = None\<rparr>)))"

definition Copy_Array_Extra_Shallow_vars :: "heap \<Rightarrow> addr \<Rightarrow> nat \<Rightarrow> error + (heap \<times> addr)" where
  "Copy_Array_Extra_Shallow_vars h a extra =
     bind_e (get_varlist h a) (\<lambda>v.
       Inr (alloc h (VL \<lparr>vl_vars = vl_vars v, vl_keylist = None, vl_context = False,
                         vl_locked = False\<rparr>)))"

definition Copy_Array_Shallow_vars :: "heap \<Rightarrow> addr \<Rightarrow> error + (heap \<times> addr)" where
  "Copy_Array_Shallow_vars h a = Copy_Array_Extra_Shallow_vars h a 0"

definition MANAGE_ARRAY :: "heap \<Rightarrow> addr \<Rightarrow> error + heap" where
  "MANAGE_ARRAY h k =
     bind_e (get_keylist h k) (\<lambda>kl. Inr (h[k := KL (kl\<lparr>kl_managed := True\<rparr>)]))"

text \<open>\<open>ARR_SERIES(keylist)->misc.meta = meta\<close>.\<close>

definition set_meta :: "heap \<Rightarrow> addr \<Rightarrow> addr option \<Rightarrow> error + heap" where
  "set_meta h k m =
     bind_e (get_keylist h k) (\<lambda>kl. Inr (h[k := KL (kl\<lparr>kl_meta := m\<rparr>)]))"

text \<open>\<open>INIT_CONTEXT_META(c, m)\<close>: the meta lives on the context's keylist.\<close>

definition INIT_CONTEXT_META :: "heap \<Rightarrow> addr \<Rightarrow> addr option \<Rightarrow> error + heap" where
  "INIT_CONTEXT_META h c m = bind_e (CTX_KEYLIST h c) (\<lambda>k. set_meta h k m)"

text \<open>\<open>SET_ARR_FLAG(CTX_VARLIST(c), ARRAY_FLAG_CONTEXT_VARLIST)\<close>.\<close>

definition set_varlist_flag :: "heap \<Rightarrow> addr \<Rightarrow> error + heap" where
  "set_varlist_flag h c =
     bind_e (get_varlist h c) (\<lambda>v. Inr (h[c := VL (v\<lparr>vl_context := True\<rparr>)]))"

text \<open>\<open>CTX_VALUE(c)->payload.any_context.varlist = CTX_VARLIST(c)\<close>: the cell in slot 0 is
  made to point at its own varlist.\<close>

definition set_rootvar_varlist :: "heap \<Rightarrow> addr \<Rightarrow> error + heap" where
  "set_rootvar_varlist h c =
     bind_e (get_varlist h c) (\<lambda>v.
       case vl_vars v of
         AnyContext k _ e # rest \<Rightarrow> Inr (h[c := VL (v\<lparr>vl_vars := AnyContext k c e # rest\<rparr>)])
       | _ \<Rightarrow> Inl Assert_Failed)"

subsection \<open>Expand_Context_Keylist_Core, Expand_Context\<close>

definition Expand_Context_Keylist_Core :: "heap \<Rightarrow> addr \<Rightarrow> nat \<Rightarrow> error + (heap \<times> bool)" where
  "Expand_Context_Keylist_Core h context delta =
     (if delta = 0 then Inr (h, False)
      else
        bind_e (CTX_KEYLIST h context) (\<lambda>keylist.
        bind_e (get_keylist h keylist) (\<lambda>kl.
          if kl_shared kl then
            let meta = kl_meta kl in
            bind_e (Copy_Array_Extra_Shallow_keys h keylist delta) (\<lambda>(h1, keylist').
            bind_e (set_meta h1 keylist' meta) (\<lambda>h2.
            bind_e (MANAGE_ARRAY h2 keylist') (\<lambda>h3.
            bind_e (INIT_CTX_KEYLIST_UNIQUE h3 context keylist') (\<lambda>h4.
              Inr (h4, True)))))
          else Inr (h, False))))"

definition Expand_Context :: "heap \<Rightarrow> addr \<Rightarrow> nat \<Rightarrow> error + heap" where
  "Expand_Context h context delta =
     bind_e (get_varlist h context) (\<lambda>_.
     bind_e (Expand_Context_Keylist_Core h context delta) (\<lambda>(h1, _). Inr h1))"

subsection \<open>Copy_Context_Shallow_Extra\<close>

definition Copy_Context_Shallow_Extra :: "heap \<Rightarrow> addr \<Rightarrow> nat \<Rightarrow> error + (heap \<times> addr)" where
  "Copy_Context_Shallow_Extra h src extra =
     bind_e (get_varlist h src) (\<lambda>sv.
     bind_e (CTX_KEYLIST h src) (\<lambda>src_keylist.
     bind_e (get_keylist h src_keylist) (\<lambda>skl.
       if \<not> vl_context sv \<or> \<not> kl_managed skl then Inl Assert_Failed
       else
         let meta = kl_meta skl in
         bind_e
           (if extra = 0 then
              bind_e (Copy_Array_Shallow_vars h src) (\<lambda>(h1, dest).
              bind_e (INIT_CTX_KEYLIST_SHARED h1 dest src_keylist) (\<lambda>h2. Inr (h2, dest)))
            else
              bind_e (Copy_Array_Extra_Shallow_keys h src_keylist extra) (\<lambda>(h1, keylist).
              bind_e (Copy_Array_Extra_Shallow_vars h1 src extra) (\<lambda>(h2, dest).
              bind_e (INIT_CTX_KEYLIST_UNIQUE h2 dest keylist) (\<lambda>h3.
              bind_e (CTX_KEYLIST h3 dest) (\<lambda>dk.
              bind_e (MANAGE_ARRAY h3 dk) (\<lambda>h4. Inr (h4, dest)))))))
           (\<lambda>(h5, dest).
              bind_e (set_varlist_flag h5 dest) (\<lambda>h6.
              bind_e (set_rootvar_varlist h6 dest) (\<lambda>h7.
              bind_e (INIT_CONTEXT_META h7 dest meta) (\<lambda>h8. Inr (h8, dest))))))))"

subsection \<open>Symbols, the collection buffer and the binding table\<close>

text \<open>Modelled from the spec: the symbol numbers come from a generated header that is not
  part of the sources. \<open>SYM_0\<close> is the sentinel symbol of the root key; \<open>SYM_SELF\<close> is
  the symbol of the word "self". Only their being different is used.\<close>

definition SYM_0 :: sym where
  "SYM_0 = 0"

definition SYM_SELF :: sym where
  "SYM_SELF = 1"

text \<open>The process-wide scratch state next to the heap: \<open>BUF_COLLECT\<close> (its cells below
  \<open>ARR_LEN\<close>), the \<open>Bind_Table\<close> indexed by canon symbol with the length of that series
  (\<open>SER_LEN(Bind_Table)\<close>, one entry per symbol), and the symbol table's \<open>SYMBOL_TO_CANON\<close>
  mapping. The entries are kept as a function of the symbol; a symbol at or above the length
  has no entry in the table of the program.\<close>

record state =
  heap :: heap
  BUF_COLLECT :: "key list"
  Bind_Table :: "sym \<Rightarrow> int"
  Bind_Table_len :: nat
  SYMBOL_TO_CANON :: "sym \<Rightarrow> sym"

text \<open>Modelled from the spec: \<open>ASSERT_BIND_TABLE_EMPTY\<close> is a macro of a header that is not
  part of the sources. In the debug build it walks the entries of the \<open>Bind_Table\<close> series
  and asserts that each of them is zero.\<close>

definition ASSERT_BIND_TABLE_EMPTY :: "state \<Rightarrow> error + unit" where
  "ASSERT_BIND_TABLE_EMPTY s =
     (if list_all (\<lambda>c. Bind_Table s c = 0) [0..<Bind_Table_len s] then Inr ()
      else Inl Assert_Failed)"

definition ALL_64 :: "64 word" where
  "ALL_64 = - 1"

definition Val_Init_Typeset :: "64 word \<Rightarrow> sym \<Rightarrow> key" where
  "Val_Init_Typeset bits s =
     \<lparr>k_sym = s, k_bits = bits, k_hidden = False, k_locked = False, k_lookback = False\<rparr>"

definition VAL_TYPESET_CANON :: "state \<Rightarrow> key \<Rightarrow> sym" where
  "VAL_TYPESET_CANON s k = SYMBOL_TO_CANON s (k_sym k)"

text \<open>Modelled from the spec: \<open>CTX_LEN\<close>, \<open>CTX_KEYS_HEAD\<close>, \<open>CTX_VARS_HEAD\<close>, \<open>CTX_KEY\<close>,
  \<open>CTX_VAR\<close> and \<open>CTX_TYPE\<close> are macros of a header that is not part of the sources. The
  length of a context is its key count, not counting the root key in slot 0; keys and
  variables are numbered from 1; the type is the kind of the header value in slot 0.\<close>

definition ctx_keys :: "heap \<Rightarrow> addr \<Rightarrow> error + key list" where
  "ctx_keys h c =
     bind_e (CTX_KEYLIST h c) (\<lambda>k.
     bind_e (get_keylist h k) (\<lambda>kl. Inr (kl_keys kl)))"

definition CTX_LEN :: "heap \<Rightarrow> addr \<Rightarrow> error + nat" where
  "CTX_LEN h c =
     bind_e (ctx_keys h c) (\<lambda>ks.
       if ks = [] then Inl Assert_Failed else Inr (length ks - 1))"

definition CTX_KEYS_HEAD :: "heap \<Rightarrow> addr \<Rightarrow> error + key list" where
  "CTX_KEYS_HEAD h c =
     bind_e (ctx_keys h c) (\<lambda>ks.
       if ks = [] then Inl Assert_Failed else Inr (tl ks))"

definition CTX_VARS_HEAD :: "heap \<Rightarrow> addr \<Rightarrow> error + val list" where
  "CTX_VARS_HEAD h c =
     bind_e (get_varlist h c) (\<lambda>v.
       if vl_vars v = [] then Inl Assert_Failed else Inr (tl (vl_vars v)))"

definition CTX_TYPE :: "heap \<Rightarrow> addr \<Rightarrow> error + kind" where
  "CTX_TYPE h c =
     bind_e (get_varlist h c) (\<lambda>v.
       case vl_vars v of AnyContext k _ _ # _ \<Rightarrow> Inr k | _ \<Rightarrow> Inl Assert_Failed)"

subsection \<open>Collect_Keys_Start, Collect_Keys_End, Collect_Context_Keys\<close>

text \<open>The C function takes the collection flags and does not read them: whatever the flags,
  the buffer starts with the root key alone.\<close>

definition Collect_Keys_Start :: "state \<Rightarrow> error + state" where
  "Collect_Keys_Start s =
     bind_e (ASSERT_BIND_TABLE_EMPTY s) (\<lambda>_.
       if BUF_COLLECT s \<noteq> [] then Inl Assert_Failed
       else Inr (s\<lparr>BUF_COLLECT := [Val_Init_Typeset ALL_64 SYM_0]\<rparr>))"

text \<open>The loop \<open>for (key = ARR_HEAD(BUF_COLLECT); NOT_END(key); key++) binds[canon] = 0\<close>.
  The cells visited are taken to be those below \<open>ARR_LEN\<close>. (While keys are being collected
  the buffer is not terminated, so the C loop may run on over stale typesets left behind by
  an earlier pass; it then zeroes their entries too, which leaves the same table whenever
  the table was empty before the pass.)\<close>

definition reset_binds :: "state \<Rightarrow> key list \<Rightarrow> (sym \<Rightarrow> int)" where
  "reset_binds s ks = fold (\<lambda>k b. b(VAL_TYPESET_CANON s k := 0)) ks (Bind_Table s)"

definition Collect_Keys_End :: "state \<Rightarrow> error + state" where
  "Collect_Keys_End s =
     (if length (BUF_COLLECT s) < 1 then Inl Assert_Failed
      else
        let s1 = s\<lparr>Bind_Table := reset_binds s (BUF_COLLECT s), BUF_COLLECT := []\<rparr> in
        bind_e (ASSERT_BIND_TABLE_EMPTY s1) (\<lambda>_. Inr s1))"

text \<open>The checked loop of \<open>Collect_Context_Keys\<close>: a key whose canon is already bound is
  skipped, any other key is copied to the buffer and given the next bind index.\<close>

fun collect_checked ::
  "(sym \<Rightarrow> sym) \<Rightarrow> key list \<Rightarrow> key list \<times> (sym \<Rightarrow> int) \<times> int
     \<Rightarrow> key list \<times> (sym \<Rightarrow> int) \<times> int" where
  "collect_checked cn [] st = st"
| "collect_checked cn (key # keys) (buf, binds, bind_index) =
     (let canon = cn (k_sym key) in
      if binds canon \<noteq> 0 then collect_checked cn keys (buf, binds, bind_index)
      else collect_checked cn keys (buf @ [key], binds(canon := bind_index), bind_index + 1))"

text \<open>The loop after the \<open>memcpy\<close>: every key is given the next bind index.\<close>

fun bind_keys :: "(sym \<Rightarrow> sym) \<Rightarrow> key list \<Rightarrow> (sym \<Rightarrow> int) \<times> int \<Rightarrow> (sym \<Rightarrow> int) \<times> int" where
  "bind_keys cn [] st = st"
| "bind_keys cn (key # keys) (binds, bind_index) =
     bind_keys cn keys (binds(cn (k_sym key) := bind_index), bind_index + 1)"

definition Collect_Context_Keys :: "state \<Rightarrow> addr \<Rightarrow> bool \<Rightarrow> error + state" where
  "Collect_Context_Keys s context check_dups =
     bind_e (CTX_KEYS_HEAD (heap s) context) (\<lambda>keys.
       let bind_index = int (length (BUF_COLLECT s)) in
       if bind_index < 1 then Inl Assert_Failed
       else if check_dups then
         (case collect_checked (SYMBOL_TO_CANON s) keys (BUF_COLLECT s, Bind_Table s, bind_index) of
            (buf, binds, _) \<Rightarrow> Inr (s\<lparr>BUF_COLLECT := buf, Bind_Table := binds\<rparr>))
       else
         (case bind_keys (SYMBOL_TO_CANON s) keys (Bind_Table s, bind_index) of
            (binds, _) \<Rightarrow> Inr (s\<lparr>BUF_COLLECT := BUF_COLLECT s @ keys, Bind_Table := binds\<rparr>)))"

subsection \<open>Grab_Collected_Keylist_Managed\<close>

definition Grab_Collected_Keylist_Managed :: "state \<Rightarrow> addr option \<Rightarrow> error + (state \<times> addr)" where
  "Grab_Collected_Keylist_Managed s prior =
     (if length (BUF_COLLECT s) < 1 then Inl Assert_Failed
      else
        bind_e
          (case prior of
             None \<Rightarrow> Inr None
           | Some p \<Rightarrow>
               bind_e (CTX_KEYLIST (heap s) p) (\<lambda>pk.
               bind_e (get_keylist (heap s) pk) (\<lambda>pkl.
               if \<not> kl_managed pkl then Inl Assert_Failed
               else bind_e (CTX_LEN (heap s) p) (\<lambda>len.
                 Inr (if length (BUF_COLLECT s) = len + 1 then Some pk else None)))))
          (\<lambda>reuse.
             bind_e
               (case reuse of
                  Some pk \<Rightarrow> Inr (heap s, pk)
                | None \<Rightarrow>
                  (case alloc (heap s)
                          (KL \<lparr>kl_keys = BUF_COLLECT s, kl_shared = False, kl_managed = False,
                               kl_meta = None\<rparr>) of
                     (h1, keylist) \<Rightarrow>
                       bind_e (MANAGE_ARRAY h1 keylist) (\<lambda>h2. Inr (h2, keylist))))
               (\<lambda>(h3, keylist).
                  bind_e (set_meta h3 keylist None) (\<lambda>h4.
                    Inr (s\<lparr>heap := h4\<rparr>, keylist)))))"

subsection \<open>Collect_Context_Inner_Loop\<close>

text \<open>The cells of a scanned array: words of the various word kinds, arrays (blocks, groups,
  paths) holding their cells from the value's index on, and cells of any other kind. The
  nesting is a tree, so an array that contains itself is outside the model.\<close>

datatype word_kind = REB_WORD | REB_SET_WORD | REB_GET_WORD | REB_LIT_WORD | REB_REFINEMENT | REB_ISSUE

datatype array_kind = REB_BLOCK | REB_GROUP | REB_PATH | REB_SET_PATH | REB_GET_PATH | REB_LIT_PATH

datatype cell =
  AnyWord word_kind sym
  | AnyArray array_kind "cell list"
  | OtherCell nat

record collect_flags =
  COLLECT_ANY_WORD :: bool
  COLLECT_DEEP :: bool
  COLLECT_NO_DUP :: bool
  COLLECT_ENSURE_SELF :: bool

text \<open>Modelled from the spec: \<open>ANY_EVAL_BLOCK\<close> is a macro of a header that is not part of
  the sources; it holds of the evaluable arrays, BLOCK! and GROUP!.\<close>

definition ANY_EVAL_BLOCK :: "array_kind \<Rightarrow> bool" where
  "ANY_EVAL_BLOCK k = (k = REB_BLOCK \<or> k = REB_GROUP)"

text \<open>\<open>~FLAGIT_KIND(REB_0)\<close>: every datatype bit except bit 0.\<close>

definition NOT_REB_0 :: "64 word" where
  "NOT_REB_0 = NOT 1"

text \<open>A failure carries the state it leaves behind: \<open>fail\<close> unwinds without undoing what
  was written to the buffer and the binding table.\<close>

fun Collect_Context_Inner_Loop ::
  "collect_flags \<Rightarrow> cell list \<Rightarrow> state \<Rightarrow> (error \<times> state) + state" where
  "Collect_Context_Inner_Loop flags [] s = Inr s"
| "Collect_Context_Inner_Loop flags (AnyWord wk w # rest) s =
     (if Bind_Table s (SYMBOL_TO_CANON s w) = 0 then
        (if wk = REB_SET_WORD \<or> COLLECT_ANY_WORD flags then
           Collect_Context_Inner_Loop flags rest
             (s\<lparr>Bind_Table := (Bind_Table s)(SYMBOL_TO_CANON s w := int (length (BUF_COLLECT s))),
                BUF_COLLECT := BUF_COLLECT s @ [Val_Init_Typeset NOT_REB_0 w]\<rparr>)
         else Collect_Context_Inner_Loop flags rest s)
      else if COLLECT_NO_DUP flags then
        Inl (Dup_Vars w,
             s\<lparr>Bind_Table := reset_binds s (BUF_COLLECT s), BUF_COLLECT := []\<rparr>)
      else Collect_Context_Inner_Loop flags rest s)"
| "Collect_Context_Inner_Loop flags (AnyArray ak sub # rest) s =
     (if ANY_EVAL_BLOCK ak \<and> COLLECT_DEEP flags then
        (case Collect_Context_Inner_Loop flags sub s of
           Inl e \<Rightarrow> Inl e
         | Inr s1 \<Rightarrow> Collect_Context_Inner_Loop flags rest s1)
      else Collect_Context_Inner_Loop flags rest s)"
| "Collect_Context_Inner_Loop flags (OtherCell n # rest) s =
     Collect_Context_Inner_Loop flags rest s"

subsection \<open>Find_Word_In_Context\<close>

fun find_word :: "(sym \<Rightarrow> sym) \<Rightarrow> sym \<Rightarrow> bool \<Rightarrow> nat \<Rightarrow> key list \<Rightarrow> nat" where
  "find_word cn w always n [] = 0"
| "find_word cn w always n (key # keys) =
     (if w = k_sym key \<or> cn w = cn (k_sym key)
      then (if \<not> always \<and> k_hidden key then 0 else n)
      else find_word cn w always (Suc n) keys)"

definition Find_Word_In_Context :: "state \<Rightarrow> addr \<Rightarrow> sym \<Rightarrow> bool \<Rightarrow> error + nat" where
  "Find_Word_In_Context s context w always =
     bind_e (CTX_KEYS_HEAD (heap s) context) (\<lambda>keys.
       Inr (find_word (SYMBOL_TO_CANON s) w always 1 keys))"

subsection \<open>Collect_Keylist_Managed\<close>

definition lift_e :: "state \<Rightarrow> error + 'a \<Rightarrow> (error \<times> state) + 'a" where
  "lift_e s m = (case m of Inl e \<Rightarrow> Inl (e, s) | Inr x \<Rightarrow> Inr x)"

definition bind_s :: "(error \<times> state) + 'a \<Rightarrow> ('a \<Rightarrow> (error \<times> state) + 'b) \<Rightarrow> (error \<times> state) + 'b" where
  "bind_s m f = (case m of Inl e \<Rightarrow> Inl e | Inr x \<Rightarrow> f x)"

text \<open>The result is the state, the keylist and the index of SELF (meaningful when
  \<open>COLLECT_ENSURE_SELF\<close> is set).\<close>

definition Collect_Keylist_Managed ::
  "state \<Rightarrow> cell list \<Rightarrow> addr option \<Rightarrow> collect_flags \<Rightarrow> (error \<times> state) + (state \<times> addr \<times> nat)" where
  "Collect_Keylist_Managed s0 head_cells prior flags =
     bind_s (lift_e s0 (Collect_Keys_Start s0)) (\<lambda>s1.
     bind_s
       (if COLLECT_ENSURE_SELF flags then
          bind_s
            (case prior of
               None \<Rightarrow> Inr 0
             | Some p \<Rightarrow> lift_e s1 (Find_Word_In_Context s1 p SYM_SELF True))
            (\<lambda>found.
               if found = 0 then
                 Inr (s1\<lparr>BUF_COLLECT :=
                            take 1 (BUF_COLLECT s1) @ [(Val_Init_Typeset ALL_64 SYM_SELF)\<lparr>k_hidden := True\<rparr>],
                          Bind_Table := (Bind_Table s1)(SYMBOL_TO_CANON s1 SYM_SELF := 1)\<rparr>,
                      1)
               else Inr (s1, found))
        else Inr (s1, 0))
       (\<lambda>(s2, self_index).
     bind_s
       (case prior of
          None \<Rightarrow> Inr s2
        | Some p \<Rightarrow> lift_e s2 (Collect_Context_Keys s2 p False))
       (\<lambda>s3.
     bind_s (Collect_Context_Inner_Loop flags head_cells s3) (\<lambda>s4.
     bind_s (lift_e s4 (Grab_Collected_Keylist_Managed s4 prior)) (\<lambda>(s5, keylist).
     bind_s (lift_e s5 (Collect_Keys_End s5)) (\<lambda>s6.
       Inr (s6, keylist, self_index)))))))"

subsection \<open>Merge_Contexts_Selfish\<close>

text \<open>Modelled from the spec: \<open>Clonify_Values_Len_Managed\<close> and \<open>Rebind_Context_Deep\<close> are
  defined outside the sources. They put deep copies in the place of block and string values
  and retarget the words bound inside them; void, blank, integer and context cells are left
  as they are. What they make of a cell of any other kind is given by the function passed
  in.\<close>

definition clone_val :: "(nat \<Rightarrow> nat) \<Rightarrow> val \<Rightarrow> val" where
  "clone_val f v = (case v of Opaque n \<Rightarrow> Opaque (f n) | _ \<Rightarrow> v)"

text \<open>The loop over the keys and values of \<open>parent2\<close>: each value goes to the slot the
  binding table gives for its key; \<open>CTX_VAR\<close> asserts that the slot is a variable slot of
  the child.\<close>

fun scatter ::
  "(sym \<Rightarrow> sym) \<Rightarrow> (sym \<Rightarrow> int) \<Rightarrow> key list \<Rightarrow> val list \<Rightarrow> val list \<Rightarrow> error + val list" where
  "scatter cn binds [] vals vars = Inr vars"
| "scatter cn binds (key # keys) [] vars = Inl Out_Of_Bounds"
| "scatter cn binds (key # keys) (v # vals) vars =
     (let n = binds (cn (k_sym key)) in
      if n < 1 \<or> n \<ge> int (length vars) then Inl Assert_Failed
      else scatter cn binds keys vals (vars[nat n := v]))"

definition Merge_Contexts_Selfish ::
  "(nat \<Rightarrow> nat) \<Rightarrow> state \<Rightarrow> addr \<Rightarrow> addr \<Rightarrow> error + (state \<times> addr)" where
  "Merge_Contexts_Selfish cl s parent1 parent2 =
     bind_e (CTX_TYPE (heap s) parent1) (\<lambda>type1.
     bind_e (CTX_TYPE (heap s) parent2) (\<lambda>type2.
     if type1 \<noteq> type2 then Inl Assert_Failed
     else
     bind_e (Collect_Keys_Start s) (\<lambda>s1.
     bind_e (Collect_Context_Keys s1 parent1 False) (\<lambda>s2.
     bind_e (Collect_Context_Keys s2 parent2 True) (\<lambda>s3.
     case alloc (heap s3)
            (KL \<lparr>kl_keys = BUF_COLLECT s3, kl_shared = False, kl_managed = True,
                 kl_meta = None\<rparr>) of
       (h1, keylist) \<Rightarrow>
     case alloc h1
            (VL \<lparr>vl_vars = [AnyContext type1 (length h1) None], vl_keylist = Some keylist,
                 vl_context = True, vl_locked = False\<rparr>) of
       (h2, child) \<Rightarrow>
     bind_e (CTX_VARS_HEAD h2 parent1) (\<lambda>vars1.
     bind_e (CTX_LEN h2 parent1) (\<lambda>len1.
     if length vars1 < len1 then Inl Out_Of_Bounds
     else
     bind_e (CTX_KEYS_HEAD h2 parent2) (\<lambda>keys2.
     bind_e (CTX_VARS_HEAD h2 parent2) (\<lambda>vars2.
     bind_e
       (scatter (SYMBOL_TO_CANON s3) (Bind_Table s3) keys2 vars2
          (AnyContext type1 child None # take len1 vars1
             @ replicate (length (BUF_COLLECT s3) - 1 - len1) Trash))
       (\<lambda>vars.
     let cloned = hd vars # map (clone_val cl) (tl vars) in
     bind_e (Collect_Keys_End s3) (\<lambda>s4.
     let self_index = find_word (SYMBOL_TO_CANON s4) SYM_SELF True 1 (tl (BUF_COLLECT s3)) in
     if self_index = 0 then Inl Assert_Failed
     else
       Inr (s4\<lparr>heap := h2[child := VL \<lparr>vl_vars = cloned[self_index := hd cloned],
                                          vl_keylist = Some keylist, vl_context = True,
                                          vl_locked = False\<rparr>]\<rparr>,
            child))))))))))))"

subsection \<open>Append_Context_Core, Resolve_Context\<close>

text \<open>\<open>Append_Context_Core\<close> with no word to bind: a key for \<open>sym\<close> is added at the tail of the
  keylist the context links, a void variable at the tail of its varlist. The result is the
  heap and the index of the new slot.\<close>

definition Append_Context_Core :: "heap \<Rightarrow> addr \<Rightarrow> sym \<Rightarrow> bool \<Rightarrow> error + (heap \<times> nat)" where
  "Append_Context_Core h context w lookahead =
     bind_e (CTX_KEYLIST h context) (\<lambda>keylist.
     bind_e (get_keylist h keylist) (\<lambda>kl.
     let h1 = h[keylist := KL (kl\<lparr>kl_keys := kl_keys kl
                  @ [(Val_Init_Typeset ALL_64 w)\<lparr>k_lookback := lookahead\<rparr>]\<rparr>)] in
     bind_e (get_varlist h1 context) (\<lambda>v.
       if w = SYM_0 then Inl Assert_Failed
       else Inr (h1[context := VL (v\<lparr>vl_vars := vl_vars v @ [Void]\<rparr>)], length (vl_vars v)))))"

text \<open>The \<open>only_words\<close> argument: void, an integer, a block with its cells from the index
  on, or a value of another kind.\<close>

datatype only_words = OW_Void | OW_Integer int | OW_Block "cell list" | OW_Other

text \<open>Marking of the words to copy: with a start index the keys of the target from that
  index on, with a block its words and set-words.\<close>

definition mark_keys :: "(sym \<Rightarrow> sym) \<Rightarrow> key list \<Rightarrow> (sym \<Rightarrow> int) \<Rightarrow> (sym \<Rightarrow> int)" where
  "mark_keys cn keys binds = fold (\<lambda>key b. b(cn (k_sym key) := - 1)) keys binds"

fun mark_words :: "(sym \<Rightarrow> sym) \<Rightarrow> cell list \<Rightarrow> (sym \<Rightarrow> int) \<times> int \<Rightarrow> (sym \<Rightarrow> int) \<times> int" where
  "mark_words cn [] st = st"
| "mark_words cn (AnyWord wk w # rest) (binds, n) =
     (if wk = REB_WORD \<or> wk = REB_SET_WORD
      then mark_words cn rest (binds(cn w := - 1), n + 1)
      else mark_words cn rest (binds, n))"
| "mark_words cn (c # rest) st = mark_words cn rest st"

text \<open>The count of new words: one less for every key of the target that is marked.\<close>

definition count_new :: "(sym \<Rightarrow> sym) \<Rightarrow> (sym \<Rightarrow> int) \<Rightarrow> key list \<Rightarrow> int \<Rightarrow> int" where
  "count_new cn binds keys n = fold (\<lambda>key k. if binds (cn (k_sym key)) \<noteq> 0 then k - 1 else k) keys n"

text \<open>Marking of the words of the source with their index.\<close>

fun mark_source ::
  "(sym \<Rightarrow> sym) \<Rightarrow> bool \<Rightarrow> key list \<Rightarrow> int \<Rightarrow> (sym \<Rightarrow> int) \<Rightarrow> (sym \<Rightarrow> int)" where
  "mark_source cn every [] n binds = binds"
| "mark_source cn every (key # keys) n binds =
     mark_source cn every keys (n + 1)
       (if every \<or> binds (cn (k_sym key)) \<noteq> 0 then binds(cn (k_sym key) := n) else binds)"

text \<open>One pass of the loop over the keys and variables of the target, at slot \<open>j\<close>. Keys and
  variables are read from and written to the heap as it is at that moment.\<close>

definition resolve_one ::
  "(sym \<Rightarrow> sym) \<Rightarrow> addr \<Rightarrow> addr \<Rightarrow> bool \<Rightarrow> nat \<Rightarrow> heap \<times> (sym \<Rightarrow> int)
     \<Rightarrow> error + (heap \<times> (sym \<Rightarrow> int))" where
  "resolve_one cn target source all j st =
     (case st of (h, binds) \<Rightarrow>
     bind_e (CTX_KEYLIST h target) (\<lambda>tk.
     bind_e (get_keylist h tk) (\<lambda>tkl.
     bind_e (get_varlist h target) (\<lambda>tv.
       if \<not> j < length (kl_keys tkl) then Inl Out_Of_Bounds
       else
         let key = kl_keys tkl ! j; m = binds (cn (k_sym key)) in
         if m = 0 then Inr (h, binds)
         else
           let binds1 = binds(cn (k_sym key) := 0) in
           if k_locked key then Inr (h, binds1)
           else if \<not> j < length (vl_vars tv) then Inl Out_Of_Bounds
           else if \<not> (all \<or> vl_vars tv ! j = Void) then Inr (h, binds1)
           else if m < 0 then
             Inr (h[target := VL (tv\<lparr>vl_vars := (vl_vars tv)[j := Void]\<rparr>)], binds1)
           else
             bind_e (get_varlist h source) (\<lambda>sv.
             bind_e (ctx_keys h source) (\<lambda>skeys.
               if \<not> nat m < length skeys then Inl Assert_Failed
               else if \<not> nat m < length (vl_vars sv) then Inl Out_Of_Bounds
               else
                 let h1 = h[target := VL (tv\<lparr>vl_vars := (vl_vars tv)[j := vl_vars sv ! nat m]\<rparr>)] in
                 bind_e (ctx_keys h1 source) (\<lambda>skeys1.
                 bind_e (get_keylist h1 tk) (\<lambda>tkl1.
                   Inr (h1[tk := KL (tkl1\<lparr>kl_keys := (kl_keys tkl1)
                             [j := (kl_keys tkl1 ! j)\<lparr>k_lookback := k_lookback (skeys1 ! nat m)\<rparr>]\<rparr>)],
                        binds1)))))))))"

fun resolve_loop ::
  "nat \<Rightarrow> (sym \<Rightarrow> sym) \<Rightarrow> addr \<Rightarrow> addr \<Rightarrow> bool \<Rightarrow> nat \<Rightarrow> heap \<times> (sym \<Rightarrow> int)
     \<Rightarrow> error + (heap \<times> (sym \<Rightarrow> int))" where
  "resolve_loop 0 cn target source all j st = Inr st"
| "resolve_loop (Suc n) cn target source all j st =
     bind_e (resolve_one cn target source all j st) (\<lambda>st1.
       resolve_loop n cn target source all (Suc j) st1)"

text \<open>The loop that adds the words of the source that are still marked. The keys of the
  source are those it held when the loop began.\<close>

fun add_new ::
  "(sym \<Rightarrow> sym) \<Rightarrow> addr \<Rightarrow> addr \<Rightarrow> key list \<Rightarrow> nat \<Rightarrow> heap \<times> (sym \<Rightarrow> int)
     \<Rightarrow> error + (heap \<times> (sym \<Rightarrow> int))" where
  "add_new cn target source [] n st = Inr st"
| "add_new cn target source (key # keys) n (h, binds) =
     (if binds (cn (k_sym key)) \<noteq> 0 then
        bind_e (Append_Context_Core h target (cn (k_sym key)) (k_lookback key)) (\<lambda>(h1, slot).
        bind_e (get_varlist h1 source) (\<lambda>sv.
        bind_e (get_varlist h1 target) (\<lambda>tv.
          if \<not> n < length (vl_vars sv) then Inl Out_Of_Bounds
          else add_new cn target source keys (Suc n)
                 (h1[target := VL (tv\<lparr>vl_vars := (vl_vars tv)[slot := vl_vars sv ! n]\<rparr>)],
                  binds(cn (k_sym key) := 0)))))
      else add_new cn target source keys (Suc n) (h, binds))"

text \<open>The reset of the binding table when nothing was appended.\<close>

fun unmark_words :: "(sym \<Rightarrow> sym) \<Rightarrow> cell list \<Rightarrow> (sym \<Rightarrow> int) \<Rightarrow> (sym \<Rightarrow> int)" where
  "unmark_words cn [] binds = binds"
| "unmark_words cn (AnyWord wk w # rest) binds =
     (if wk = REB_WORD \<or> wk = REB_SET_WORD
      then unmark_words cn rest (binds(cn w := 0))
      else unmark_words cn rest binds)"
| "unmark_words cn (c # rest) binds = unmark_words cn rest binds"

definition unmark_keys :: "(sym \<Rightarrow> sym) \<Rightarrow> key list \<Rightarrow> (sym \<Rightarrow> int) \<Rightarrow> (sym \<Rightarrow> int)" where
  "unmark_keys cn keys binds = fold (\<lambda>key b. b(cn (k_sym key) := 0)) keys binds"

text \<open>\<open>VAL_INT32\<close> stored in the unsigned \<open>i\<close>.\<close>

definition start_index :: "only_words \<Rightarrow> nat" where
  "start_index ow =
     (case ow of
        OW_Integer n \<Rightarrow> (if nat (n mod 4294967296) = 0 then 1 else nat (n mod 4294967296))
      | _ \<Rightarrow> 0)"

text \<open>The tagging of the words that need to be copied, with the count \<open>n\<close> it leaves:
  the keys of the target from \<open>i\<close> on when \<open>only_words\<close> is an index, the words and
  set-words of the block when it is a block, nothing otherwise.\<close>

definition resolve_marks ::
  "(sym \<Rightarrow> sym) \<Rightarrow> only_words \<Rightarrow> key list \<Rightarrow> nat \<Rightarrow> (sym \<Rightarrow> int)
     \<Rightarrow> (sym \<Rightarrow> int) \<times> int" where
  "resolve_marks cn ow tkeys tlen binds =
     (let i = start_index ow in
      if i \<noteq> 0 then (mark_keys cn (drop i tkeys) binds, int tlen)
      else (case ow of
              OW_Block cells \<Rightarrow> mark_words cn cells (binds, 0)
            | _ \<Rightarrow> (binds, 0)))"

text \<open>\<open>Resolve_Context\<close>, with both its \<open>ASSERT_BIND_TABLE_EMPTY\<close> (on entry, and at the end
  before the buffer is released) and the one of \<open>Collect_Keys_Start\<close>: a call that finds the
  binding table in use, or leaves an entry of it set, stops at the assertion.\<close>

definition Resolve_Context ::
  "state \<Rightarrow> addr \<Rightarrow> addr \<Rightarrow> only_words \<Rightarrow> bool \<Rightarrow> bool \<Rightarrow> error + state" where
  "Resolve_Context s target source ow all expand0 =
     (let cn = SYMBOL_TO_CANON s; i = start_index ow in
      bind_e (ASSERT_BIND_TABLE_EMPTY s) (\<lambda>_.
      bind_e (get_varlist (heap s) target) (\<lambda>tv.
      if vl_locked tv then Inl Locked_Context
      else
      bind_e (CTX_LEN (heap s) target) (\<lambda>tlen.
      if i > tlen then Inr s
      else
      bind_e (Collect_Keys_Start s) (\<lambda>s1.
      bind_e (ctx_keys (heap s) target) (\<lambda>tkeys.
      case resolve_marks cn ow tkeys tlen (Bind_Table s1) of
        (binds1, n1) \<Rightarrow>
      bind_e
        (if expand0 \<and> n1 > 0 then
           (let n2 = count_new cn binds1 (tl tkeys) n1 in
            if n2 > 0
            then bind_e (Expand_Context (heap s) target (nat n2)) (\<lambda>h1. Inr (h1, True))
            else Inr (heap s, False))
         else Inr (heap s, expand0))
        (\<lambda>(h1, expand).
      bind_e (CTX_KEYS_HEAD h1 source) (\<lambda>skeys.
      let binds2 = mark_source cn (ow = OW_Void) skeys 1 binds1;
          start = (if i \<noteq> 0 then i else 1)
      in
      bind_e (ctx_keys h1 target) (\<lambda>tkeys1.
      bind_e (resolve_loop (length tkeys1 - start) cn target source all start (h1, binds2))
        (\<lambda>(h2, binds3).
      bind_e
        (if expand then
           bind_e (CTX_KEYS_HEAD h2 source) (\<lambda>skeys2.
             add_new cn target source skeys2 1 (h2, binds3))
         else
           bind_e (ctx_keys h2 target) (\<lambda>tkeys2.
           bind_e (CTX_KEYS_HEAD h2 source) (\<lambda>skeys2.
             Inr (h2,
                  if i \<noteq> 0 then unmark_keys cn (drop i tkeys2) binds3
                  else (case ow of
                          OW_Block cells \<Rightarrow> unmark_words cn cells binds3
                        | _ \<Rightarrow> unmark_keys cn skeys2 binds3)))))
        (\<lambda>(h3, binds4).
      let s4 = s\<lparr>heap := h3, Bind_Table := binds4\<rparr> in
      bind_e (ASSERT_BIND_TABLE_EMPTY s4) (\<lambda>_.
          Inr (s4\<lparr>BUF_COLLECT := []\<rparr>)))))))))))))"

section \<open>The splice algorithm (f-modify.c)\<close>

subsection \<open>Arrays of cells\<close>

text \<open>An array value is a pointer to an array and an index into it. The pointer is a heap
  array or the global empty array behind \<open>EMPTY_BLOCK\<close>. A cell carries its value and the
  flag \<open>CELL_FLAG_NEWLINE_BEFORE\<close>; an array carries \<open>ARRAY_FLAG_NEWLINE_AT_TAIL\<close>.
  \<open>M_Trash\<close> is the content of a cell that expansion has opened and nothing has written
  yet. Quoting levels (\<open>VAL_UNESCAPED\<close>) are not modelled.\<close>

datatype aptr = Heap_Array addr | EMPTY_ARRAY

datatype mval =
  M_Integer int
  | M_Block aptr nat
  | M_Other nat
  | M_Trash

record mcell =
  c_val :: mval
  c_newline_before :: bool

record marray =
  a_cells :: "mcell list"
  a_newline_at_tail :: bool

type_synonym aheap = "marray list"

datatype verb = SYM_INSERT | SYM_APPEND | SYM_CHANGE

record am_flags =
  AM_SPLICE :: bool
  AM_PART :: bool
  AM_LINE :: bool

definition get_array :: "aheap \<Rightarrow> aptr \<Rightarrow> error + marray" where
  "get_array h p =
     (case p of
        EMPTY_ARRAY \<Rightarrow> Inr \<lparr>a_cells = [], a_newline_at_tail = False\<rparr>
      | Heap_Array a \<Rightarrow> if a < length h then Inr (h ! a) else Inl Bad_Pointer)"

definition trash_cell :: mcell where
  "trash_cell = \<lparr>c_val = M_Trash, c_newline_before = False\<rparr>"

text \<open>Modelled from the spec: the series primitives expand-by-N, remove-N-at and
  shallow-copy are defined outside the sources. \<open>Expand_Series\<close> opens \<open>delta\<close> cells at
  \<open>index\<close>, moving the cells from \<open>index\<close> on up; the opened cells hold no defined value.
  Its \<open>delta\<close> is unsigned: a negative C \<open>int\<close> arrives as a size no allocation can meet.
  \<open>Remove_Series_Units\<close> takes \<open>len\<close> cells out at \<open>index\<close>, clipped at the tail.
  \<open>EXPAND_SERIES_TAIL\<close> opens cells at the tail. \<open>Copy_Array_At_Extra_Shallow\<close> makes a
  new array of the cells from \<open>index\<close> on.\<close>

definition Expand_Series :: "aheap \<Rightarrow> addr \<Rightarrow> nat \<Rightarrow> int \<Rightarrow> error + aheap" where
  "Expand_Series h a index delta =
     (if \<not> a < length h then Inl Bad_Pointer
      else if delta < 0 then Inl Out_Of_Memory
      else if index > length (a_cells (h ! a)) then Inl Out_Of_Bounds
      else Inr (h[a := (h ! a)\<lparr>a_cells :=
                  take index (a_cells (h ! a)) @ replicate (nat delta) trash_cell
                    @ drop index (a_cells (h ! a))\<rparr>]))"

definition Remove_Series_Units :: "aheap \<Rightarrow> addr \<Rightarrow> nat \<Rightarrow> int \<Rightarrow> error + aheap" where
  "Remove_Series_Units h a index len =
     (if \<not> a < length h then Inl Bad_Pointer
      else if len < 0 then Inl Out_Of_Bounds
      else Inr (h[a := (h ! a)\<lparr>a_cells :=
                  take index (a_cells (h ! a)) @ drop (index + nat len) (a_cells (h ! a))\<rparr>]))"

definition EXPAND_SERIES_TAIL :: "aheap \<Rightarrow> addr \<Rightarrow> int \<Rightarrow> error + aheap" where
  "EXPAND_SERIES_TAIL h a delta =
     (if \<not> a < length h then Inl Bad_Pointer
      else if delta < 0 then Inl Out_Of_Memory
      else Inr (h[a := (h ! a)\<lparr>a_cells := a_cells (h ! a) @ replicate (nat delta) trash_cell\<rparr>]))"

definition Copy_Array_At_Extra_Shallow :: "aheap \<Rightarrow> aptr \<Rightarrow> nat \<Rightarrow> error + (aheap \<times> addr)" where
  "Copy_Array_At_Extra_Shallow h p index =
     bind_e (get_array h p) (\<lambda>arr.
       Inr (h @ [\<lparr>a_cells = drop index (a_cells arr), a_newline_at_tail = False\<rparr>], length h))"

text \<open>Reading the cell \<open>src_rel + index\<close> and writing the cell \<open>ARR_HEAD(dst_arr) + dst_idx\<close>.
  The source pointer is a position in an array, or the caller's own cell when nothing is
  spliced. Both go through the heap as it is at that moment.\<close>

datatype src_ptr = In_Array aptr nat | Own_Cell mcell

definition read_src :: "aheap \<Rightarrow> src_ptr \<Rightarrow> nat \<Rightarrow> error + mcell" where
  "read_src h sp index =
     (case sp of
        Own_Cell c \<Rightarrow> if index = 0 then Inr c else Inl Out_Of_Bounds
      | In_Array p off \<Rightarrow>
          bind_e (get_array h p) (\<lambda>arr.
            if off + index < length (a_cells arr) then Inr (a_cells arr ! (off + index))
            else Inl Out_Of_Bounds))"

definition write_cell :: "aheap \<Rightarrow> addr \<Rightarrow> nat \<Rightarrow> mcell \<Rightarrow> error + aheap" where
  "write_cell h a i c =
     (if \<not> a < length h then Inl Bad_Pointer
      else if \<not> i < length (a_cells (h ! a)) then Inl Out_Of_Bounds
      else Inr (h[a := (h ! a)\<lparr>a_cells := (a_cells (h ! a))[i := c]\<rparr>]))"

text \<open>\<open>SET_CELL_FLAG(ARR_HEAD(dst_arr) + i, NEWLINE_BEFORE)\<close>.\<close>

definition set_newline_before :: "aheap \<Rightarrow> addr \<Rightarrow> nat \<Rightarrow> error + aheap" where
  "set_newline_before h a i =
     (if \<not> a < length h then Inl Bad_Pointer
      else if \<not> i < length (a_cells (h ! a)) then Inl Out_Of_Bounds
      else Inr (h[a := (h ! a)\<lparr>a_cells :=
                  (a_cells (h ! a))[i := (a_cells (h ! a) ! i)\<lparr>c_newline_before := True\<rparr>]\<rparr>]))"

definition set_newline_at_tail :: "aheap \<Rightarrow> addr \<Rightarrow> bool \<Rightarrow> error + aheap" where
  "set_newline_at_tail h a b =
     (if \<not> a < length h then Inl Bad_Pointer
      else Inr (h[a := (h ! a)\<lparr>a_newline_at_tail := b\<rparr>]))"

subsection \<open>Modify_Array\<close>

text \<open>One pass of the body of the inner \<open>for\<close> loop. Modelled from the spec:
  \<open>Derelativize\<close> is defined outside the sources; it is taken to copy the source cell, its
  newline marker included, over the destination cell.\<close>

definition copy_one ::
  "addr \<Rightarrow> src_ptr \<Rightarrow> bool \<Rightarrow> bool \<Rightarrow> nat \<Rightarrow> nat \<Rightarrow> nat \<Rightarrow> aheap \<Rightarrow> error + aheap" where
  "copy_one dst_arr src_rel head_newline tail_newline dup_index index dst_idx h =
     bind_e (read_src h src_rel index) (\<lambda>c.
     bind_e (write_cell h dst_arr dst_idx c) (\<lambda>h1.
       if dup_index = 0 \<and> index = 0 \<and> head_newline then
         bind_e (set_newline_before h1 dst_arr dst_idx) (\<lambda>h2.
           set_newline_at_tail h2 dst_arr False)
       else if dup_index > 0 \<and> index = 0 \<and> tail_newline then
         set_newline_before h1 dst_arr dst_idx
       else Inr h1))"

text \<open>The inner loop \<open>for (; index < ilen; ++index, ++dst_idx)\<close>; the first argument counts
  the passes still to run.\<close>

fun copy_loop ::
  "nat \<Rightarrow> addr \<Rightarrow> src_ptr \<Rightarrow> bool \<Rightarrow> bool \<Rightarrow> nat \<Rightarrow> nat \<Rightarrow> nat \<Rightarrow> aheap
     \<Rightarrow> error + (aheap \<times> nat)" where
  "copy_loop 0 dst_arr src_rel head_newline tail_newline dup_index index dst_idx h =
     Inr (h, dst_idx)"
| "copy_loop (Suc n) dst_arr src_rel head_newline tail_newline dup_index index dst_idx h =
     bind_e (copy_one dst_arr src_rel head_newline tail_newline dup_index index dst_idx h) (\<lambda>h1.
       copy_loop n dst_arr src_rel head_newline tail_newline dup_index (Suc index) (Suc dst_idx) h1)"

text \<open>The outer loop \<open>for (; dup_index < dups; ++dup_index)\<close>.\<close>

fun dup_loop ::
  "nat \<Rightarrow> addr \<Rightarrow> src_ptr \<Rightarrow> bool \<Rightarrow> bool \<Rightarrow> int \<Rightarrow> nat \<Rightarrow> nat \<Rightarrow> aheap
     \<Rightarrow> error + (aheap \<times> nat)" where
  "dup_loop 0 dst_arr src_rel head_newline tail_newline ilen dup_index dst_idx h =
     Inr (h, dst_idx)"
| "dup_loop (Suc d) dst_arr src_rel head_newline tail_newline ilen dup_index dst_idx h =
     bind_e (copy_loop (nat ilen) dst_arr src_rel head_newline tail_newline dup_index 0 dst_idx h)
       (\<lambda>(h1, dst_idx1).
          dup_loop d dst_arr src_rel head_newline tail_newline ilen (Suc dup_index) dst_idx1 h1)"

text \<open>The \<open>AM_SPLICE\<close> branch: the length to insert, the newline signal after each
  duplicate, and the source pointer, with the copy made when the source array is the
  destination. Modelled from the spec: \<open>VAL_LEN_AT\<close> and \<open>VAL_ARRAY_AT\<close> are macros outside the
  sources; an index past the tail has length 0.\<close>

definition splice_source ::
  "aheap \<Rightarrow> verb \<Rightarrow> addr \<Rightarrow> mcell \<Rightarrow> am_flags \<Rightarrow> int \<Rightarrow> error + (aheap \<times> int \<times> bool \<times> src_ptr)" where
  "splice_source h vsym dst_arr src_val flags dst_len =
     (case c_val src_val of
        M_Block p vindex \<Rightarrow>
          bind_e (get_array h p) (\<lambda>arr.
            let ilen = (if vsym \<noteq> SYM_CHANGE \<and> AM_PART flags then dst_len
                        else int (length (a_cells arr) - vindex)) in
            bind_e
              (if AM_LINE flags then Inr True
               else if ilen < 0 \<or> int vindex + ilen > int (length (a_cells arr)) then Inl Out_Of_Bounds
               else if int vindex + ilen = int (length (a_cells arr)) then Inr (a_newline_at_tail arr)
               else if ilen = 0 then Inr False
               else Inr (c_newline_before (a_cells arr ! nat (int vindex + ilen))))
              (\<lambda>tail_newline.
                 if Heap_Array dst_arr = p then
                   bind_e (Copy_Array_At_Extra_Shallow h p vindex) (\<lambda>(h1, copy).
                     Inr (h1, ilen, tail_newline, In_Array (Heap_Array copy) 0))
                 else Inr (h, ilen, tail_newline, In_Array p vindex)))
      | _ \<Rightarrow> Inl Assert_Failed)"

definition Modify_Array ::
  "aheap \<Rightarrow> verb \<Rightarrow> addr \<Rightarrow> nat \<Rightarrow> mcell option \<Rightarrow> am_flags \<Rightarrow> int \<Rightarrow> int
     \<Rightarrow> error + (aheap \<times> nat)" where
  "Modify_Array h0 vsym dst_arr dst_idx0 src_val0 flags0 dst_len dups =
     bind_e (get_array h0 (Heap_Array dst_arr)) (\<lambda>dst0.
     let tail = length (a_cells dst0);
         flags = (if src_val0 = None \<and> vsym = SYM_CHANGE then flags0\<lparr>AM_SPLICE := True\<rparr> else flags0);
         src_val = (if src_val0 = None \<and> vsym = SYM_CHANGE
                    then Some \<lparr>c_val = M_Block EMPTY_ARRAY 0, c_newline_before = False\<rparr>
                    else src_val0)
     in
     case src_val of
       None \<Rightarrow> Inr (h0, if vsym = SYM_APPEND then 0 else dst_idx0)
     | Some src \<Rightarrow>
         if dups \<le> 0 then Inr (h0, if vsym = SYM_APPEND then 0 else dst_idx0)
         else
           let dst_idx = (if vsym = SYM_APPEND \<or> dst_idx0 > tail then tail else dst_idx0) in
           bind_e
             (if AM_SPLICE flags then splice_source h0 vsym dst_arr src flags dst_len
              else Inr (h0, 1, AM_LINE flags, Own_Cell src))
             (\<lambda>(h1, ilen, tail_newline, src_rel).
           bind_e (get_array h1 (Heap_Array dst_arr)) (\<lambda>dst1.
           let size = dups * ilen;
               head_newline = (dst_idx = length (a_cells dst1) \<and> a_newline_at_tail dst1)
           in
           bind_e
             (if vsym \<noteq> SYM_CHANGE then Expand_Series h1 dst_arr dst_idx size
              else if size > dst_len then Expand_Series h1 dst_arr dst_idx (size - dst_len)
              else if size < dst_len \<and> AM_PART flags
                then Remove_Series_Units h1 dst_arr dst_idx (dst_len - size)
              else if size + int dst_idx > int tail
                then EXPAND_SERIES_TAIL h1 dst_arr (size - (int tail - int dst_idx))
              else Inr h1)
             (\<lambda>h2.
           let result = (if vsym = SYM_APPEND then 0 else nat (size + int dst_idx)) in
           bind_e (dup_loop (nat dups) dst_arr src_rel head_newline tail_newline ilen 0 dst_idx h2)
             (\<lambda>(h3, dst_idx3).
           bind_e (get_array h3 (Heap_Array dst_arr)) (\<lambda>dst3.
           bind_e
             (if tail_newline then
                (if dst_idx3 = length (a_cells dst3) then set_newline_at_tail h3 dst_arr True
                 else set_newline_before h3 dst_arr dst_idx3)
              else Inr h3)
             (\<lambda>h4.
           bind_e (get_array h4 (Heap_Array dst_arr)) (\<lambda>dst4.
           bind_e
             (if AM_LINE flags \<and> a_cells dst4 \<noteq> [] then set_newline_before h4 dst_arr 0
              else Inr h4)
             (\<lambda>h5. Inr (h5, result))))))))))"

subsection \<open>Text and binary series\<close>

text \<open>A byte series holds its bytes below \<open>SER_USED\<close>. A series flagged as string holds
  UTF-8 and keeps its length in codepoints (\<open>MISC(s).length\<close>) and possibly a bookmark
  (\<open>BMK_INDEX\<close>, \<open>BMK_OFFSET\<close>). \<open>s_read_only\<close> is what \<open>FAIL_IF_READ_ONLY\<close> tests. The
  destination value is a BINARY! or an ANY-STRING! with a series and an index.\<close>

type_synonym byte = "8 word"

record series =
  s_bytes :: "byte list"
  s_is_string :: bool
  s_len :: nat
  s_bookmark :: "(nat \<times> nat) option"
  s_read_only :: bool

type_synonym sheap = "series list"

datatype sptr = Heap_Series addr | EMPTY_SERIES

record dst_value =
  d_is_binary :: bool
  d_series :: addr
  d_index :: nat

text \<open>The source values the routine tells apart: null, a character with its encoded bytes,
  an integer, a binary, a block with its items from the index on, a string that is not a
  tag, a tag, anything else.\<close>

datatype sval =
  S_Nulled
  | S_Char "byte list"
  | S_Integer int
  | S_Binary sptr nat
  | S_Block "sval list"
  | S_String sptr nat
  | S_Tag sptr nat
  | S_Other nat

text \<open>Modelled from the spec: molding, forming and joining are defined outside the sources
  and are passed in. Each gives the bytes it leaves in its buffer.\<close>

record externals =
  Mold_Or_Form_Value :: "sheap \<Rightarrow> sval \<Rightarrow> byte list"
  Form_Value :: "sheap \<Rightarrow> sval \<Rightarrow> byte list"
  Join_Binary_In_Byte_Buf :: "sheap \<Rightarrow> sval list \<Rightarrow> error + byte list"

definition get_series :: "sheap \<Rightarrow> sptr \<Rightarrow> error + series" where
  "get_series h p =
     (case p of
        EMPTY_SERIES \<Rightarrow> Inr \<lparr>s_bytes = [], s_is_string = True, s_len = 0, s_bookmark = None,
                             s_read_only = True\<rparr>
      | Heap_Series a \<Rightarrow> if a < length h then Inr (h ! a) else Inl Bad_Pointer)"

text \<open>Modelled from the spec: the UTF-8 helpers are defined outside the sources. A codepoint
  is a byte followed by its continuation bytes (\<open>10xxxxxx\<close>). \<open>codepoints\<close> counts the
  codepoints of a byte run, \<open>drop_codepoints n\<close> steps over \<open>n\<close> of them (stopping at the
  end). \<open>VAL_OFFSET_FOR_INDEX\<close> is the byte offset of a codepoint index.
  \<open>VAL_SIZE_LIMIT_AT\<close> gives the byte size and the codepoint length of the text from the
  value's index on, cut after \<open>limit\<close> codepoints unless \<open>limit\<close> is \<open>-1\<close>. \<open>BIN_AT\<close> reads
  a byte; the byte at \<open>SER_USED\<close> is the terminator.\<close>

definition is_continuation :: "byte \<Rightarrow> bool" where
  "is_continuation b \<longleftrightarrow> 0x80 \<le> b \<and> b < 0xC0"

definition codepoints :: "byte list \<Rightarrow> nat" where
  "codepoints bs = length (filter (\<lambda>b. \<not> is_continuation b) bs)"

fun drop_codepoints :: "nat \<Rightarrow> byte list \<Rightarrow> byte list" where
  "drop_codepoints 0 bs = bs"
| "drop_codepoints (Suc n) [] = []"
| "drop_codepoints (Suc n) (b # bs) = drop_codepoints n (dropWhile is_continuation bs)"

definition VAL_OFFSET_FOR_INDEX :: "series \<Rightarrow> nat \<Rightarrow> nat" where
  "VAL_OFFSET_FOR_INDEX ser index =
     length (s_bytes ser) - length (drop_codepoints index (s_bytes ser))"

definition VAL_SIZE_LIMIT_AT :: "series \<Rightarrow> nat \<Rightarrow> int \<Rightarrow> nat \<times> nat" where
  "VAL_SIZE_LIMIT_AT ser index limit =
     (let at = drop_codepoints index (s_bytes ser) in
      if limit = - 1 then (length at, s_len ser - index)
      else (length at - length (drop_codepoints (nat limit) at), nat limit))"

definition BIN_AT :: "byte list \<Rightarrow> nat \<Rightarrow> error + byte" where
  "BIN_AT bs i =
     (if i < length bs then Inr (bs ! i) else if i = length bs then Inr 0 else Inl Out_Of_Bounds)"

text \<open>Modelled from the spec: \<open>sizeof(REBVAL)\<close>, four pointers, on a 64-bit platform.\<close>

definition sizeof_REBVAL :: nat where
  "sizeof_REBVAL = 32"

subsection \<open>Modify_String_Or_Binary\<close>

text \<open>The checks made up front, before the source is looked at: the result is the byte
  offset \<open>dst_off\<close> and \<open>tail\<close>.\<close>

definition modify_checks :: "series \<Rightarrow> dst_value \<Rightarrow> error + (nat \<times> nat)" where
  "modify_checks dst_ser dst =
     (if s_read_only dst_ser then Inl Read_Only_Series
      else if d_is_binary dst then
        bind_e
          (if s_is_string dst_ser then
             bind_e (BIN_AT (s_bytes dst_ser) (d_index dst)) (\<lambda>b.
               if b \<ge> 0x80 then Inl Index_Codepoint_Modify else Inr ())
           else Inr ())
          (\<lambda>_. Inr (d_index dst, length (s_bytes dst_ser)))
      else if \<not> s_is_string dst_ser then Inl Assert_Failed
      else Inr (VAL_OFFSET_FOR_INDEX dst_ser (d_index dst), s_len dst_ser))"

text \<open>The source as a flat run of bytes: the bytes readable at \<open>src_ptr\<close>, \<open>src_len_raw\<close> and
  \<open>src_size_raw\<close>. A binary source that is the destination series itself leaves \<open>src_ptr\<close>
  pointing into storage that the expansion may move; that use is undefined and is reported
  as \<open>Bad_Pointer\<close>.\<close>

definition use_mold_buffer :: "series \<Rightarrow> byte list \<Rightarrow> byte list \<times> nat \<times> nat" where
  "use_mold_buffer dst_ser molded =
     (molded, (if \<not> s_is_string dst_ser then length molded else codepoints molded), length molded)"

definition source_bytes ::
  "externals \<Rightarrow> sheap \<Rightarrow> dst_value \<Rightarrow> series \<Rightarrow> sval \<Rightarrow> int
     \<Rightarrow> error + (byte list \<times> nat \<times> nat)" where
  "source_bytes ext h dst dst_ser src limit =
     (case src of
        S_Char enc \<Rightarrow>
          Inr (enc, (if s_is_string dst_ser then 1 else length enc), length enc)
      | S_Integer n \<Rightarrow>
          if \<not> d_is_binary dst
          then Inr (use_mold_buffer dst_ser (Mold_Or_Form_Value ext h src))
          else if n < 0 \<or> n > 255 then Inl Out_Of_Range
          else Inr ([word_of_int n], 1, 1)
      | S_Binary p offset \<Rightarrow>
          bind_e (get_series h p) (\<lambda>bin.
            if offset > length (s_bytes bin) then Inl Out_Of_Bounds
            else if p = Heap_Series (d_series dst) then Inl Bad_Pointer
            else
              let src_size_raw = length (s_bytes bin) - offset in
              if \<not> s_is_string dst_ser
              then Inr (drop offset (s_bytes bin), src_size_raw, src_size_raw)
              else if s_is_string bin then
                bind_e (BIN_AT (s_bytes bin) offset) (\<lambda>b.
                  if b > 0x80 then Inl Index_Codepoint_Insert
                  else Inr (drop offset (s_bytes bin),
                            s_len bin - codepoints (take offset (s_bytes bin)), src_size_raw))
              else Inl UTF8_Check_Not_Implemented)
      | S_Block items \<Rightarrow>
          if d_is_binary dst then
            bind_e (Join_Binary_In_Byte_Buf ext h items) (\<lambda>joined.
              Inr (joined, length joined, length joined))
          else Inr (use_mold_buffer dst_ser (concat (map (Form_Value ext h) items)))
      | S_String p index \<Rightarrow>
          if p = Heap_Series (d_series dst)
          then Inr (use_mold_buffer dst_ser (Mold_Or_Form_Value ext h src))
          else
            bind_e (get_series h p) (\<lambda>str.
              case VAL_SIZE_LIMIT_AT str index limit of
                (src_size_raw, src_len_raw) \<Rightarrow>
                  Inr (drop_codepoints index (s_bytes str),
                       (if \<not> s_is_string dst_ser then src_size_raw else src_len_raw),
                       src_size_raw))
      | _ \<Rightarrow> Inr (use_mold_buffer dst_ser (Mold_Or_Form_Value ext h src)))"

text \<open>The final loop: each duplicate is a \<open>memcpy\<close> of \<open>src_size_raw\<close> bytes at \<open>dst_ptr\<close>,
  followed by a line feed when \<open>AM_LINE\<close> is set.\<close>

definition write_bytes :: "byte list \<Rightarrow> nat \<Rightarrow> byte list \<Rightarrow> error + byte list" where
  "write_bytes bs off data =
     (if off + length data \<le> length bs
      then Inr (take off bs @ data @ drop (off + length data) bs)
      else Inl Out_Of_Bounds)"

fun copy_dups :: "nat \<Rightarrow> byte list \<Rightarrow> bool \<Rightarrow> nat \<Rightarrow> byte list \<Rightarrow> error + byte list" where
  "copy_dups 0 src line dst_ptr bs = Inr bs"
| "copy_dups (Suc d) src line dst_ptr bs =
     bind_e (write_bytes bs dst_ptr src) (\<lambda>bs1.
     bind_e (if line then write_bytes bs1 (dst_ptr + length src) [0x0A] else Inr bs1) (\<lambda>bs2.
       copy_dups d src line (dst_ptr + length src + (if line then 1 else 0)) bs2))"

text \<open>The bookmark is dropped when it points past the new end (only a change removes
  material) or when the series is short.\<close>

definition bookmark_cleanup :: "verb \<Rightarrow> series \<Rightarrow> series \<Rightarrow> error + series" where
  "bookmark_cleanup vsym dst_ser ser1 =
     (if s_is_string dst_ser \<and> s_bookmark dst_ser \<noteq> None then
        (case s_bookmark ser1 of
           None \<Rightarrow> Inl Assert_Failed
         | Some (bi, bo) \<Rightarrow>
             if bi > s_len ser1 then
               (if vsym \<noteq> SYM_CHANGE then Inl Assert_Failed
                else Inr (ser1\<lparr>s_bookmark := None\<rparr>))
             else if s_len ser1 < sizeof_REBVAL then Inr (ser1\<lparr>s_bookmark := None\<rparr>)
             else Inr ser1)
      else Inr ser1)"

text \<open>The storage and header updates of insert and append.\<close>

definition expand_for_insert :: "series \<Rightarrow> nat \<Rightarrow> nat \<Rightarrow> nat \<Rightarrow> nat \<Rightarrow> nat \<Rightarrow> error + series" where
  "expand_for_insert dst_ser dst_off dst_idx tail src_size_total src_len_total =
     (if dst_off > length (s_bytes dst_ser) then Inl Out_Of_Bounds
      else
        let ser1 = dst_ser\<lparr>s_bytes := take dst_off (s_bytes dst_ser) @ replicate src_size_total 0
                                         @ drop dst_off (s_bytes dst_ser)\<rparr>
        in Inr (if s_is_string dst_ser
                then ser1\<lparr>s_bookmark :=
                            (case s_bookmark dst_ser of
                               None \<Rightarrow> None
                             | Some (bi, bo) \<Rightarrow>
                                 if bi \<ge> dst_idx then Some (bi, bo + src_size_total) else Some (bi, bo)),
                          s_len := tail + src_len_total\<rparr>
                else ser1))"

text \<open>The storage and header updates of change.\<close>

definition resize_for_change ::
  "series \<Rightarrow> dst_value \<Rightarrow> am_flags \<Rightarrow> int \<Rightarrow> nat \<Rightarrow> nat \<Rightarrow> nat \<Rightarrow> nat \<Rightarrow> nat \<Rightarrow> error + series" where
  "resize_for_change dst_ser dst flags part0 dst_off dst_idx tail src_size_total src_len_total =
     (let part1 = (if \<not> AM_PART flags then int src_len_total else part0) in
      bind_e
        (if s_is_string dst_ser then
           (if d_is_binary dst then Inl Assert_Failed
            else Inr (VAL_SIZE_LIMIT_AT dst_ser (d_index dst) (- 1)))
         else Inr (length (s_bytes dst_ser) - d_index dst, length (s_bytes dst_ser) - d_index dst))
        (\<lambda>(dst_size_at, dst_len_at).
           let part = (if part1 < 0 \<or> nat part1 > dst_len_at then dst_len_at else nat part1);
               part_size =
                 (if part1 < 0 \<or> nat part1 > dst_len_at then dst_size_at
                  else if s_is_string dst_ser
                    then fst (VAL_SIZE_LIMIT_AT dst_ser (d_index dst) (int part))
                  else part)
           in
           if dst_off > length (s_bytes dst_ser) then Inl Out_Of_Bounds
           else
             let bytes1 =
                   (if src_size_total > part_size
                    then take dst_off (s_bytes dst_ser) @ replicate (src_size_total - part_size) 0
                           @ drop dst_off (s_bytes dst_ser)
                    else if part_size > src_size_total
                    then take dst_off (s_bytes dst_ser)
                           @ drop (dst_off + (part_size - src_size_total)) (s_bytes dst_ser)
                    else s_bytes dst_ser);
                 ser1 = dst_ser\<lparr>s_bytes := bytes1\<rparr>
             in Inr (if s_is_string dst_ser
                     then ser1\<lparr>s_bookmark :=
                                 (case s_bookmark dst_ser of
                                    None \<Rightarrow> None
                                  | Some (bi, bo) \<Rightarrow>
                                      if bi > dst_idx then Some (dst_idx, dst_off) else Some (bi, bo)),
                               s_len := tail + src_len_total - part\<rparr>
                     else ser1)))"

definition Modify_String_Or_Binary ::
  "externals \<Rightarrow> sheap \<Rightarrow> dst_value \<Rightarrow> verb \<Rightarrow> sval \<Rightarrow> am_flags \<Rightarrow> int \<Rightarrow> int
     \<Rightarrow> error + (sheap \<times> nat)" where
  "Modify_String_Or_Binary ext h dst vsym src0 flags0 part dups =
     bind_e (get_series h (Heap_Series (d_series dst))) (\<lambda>dst_ser.
     bind_e (modify_checks dst_ser dst) (\<lambda>(dst_off0, tail).
       if src0 = S_Nulled \<and> vsym = SYM_APPEND then Inr (h, 0)
       else if src0 = S_Nulled \<and> vsym = SYM_INSERT then Inr (h, d_index dst)
       else
         let flags = (if src0 = S_Nulled then flags0\<lparr>AM_SPLICE := True\<rparr> else flags0);
             src = (if src0 = S_Nulled then S_String EMPTY_SERIES 0 else src0)
         in
         if vsym \<noteq> SYM_CHANGE \<and> AM_PART flags \<and> part < 0 then Inl Assert_Failed
         else
           let limit = (if vsym \<noteq> SYM_CHANGE \<and> AM_PART flags then part else - 1) in
           if limit = 0 \<or> dups \<le> 0 then Inr (h, if vsym = SYM_APPEND then 0 else d_index dst)
           else
             let dst_off = (if vsym = SYM_APPEND \<or> d_index dst > tail
                            then length (s_bytes dst_ser) else dst_off0);
                 dst_idx = (if vsym = SYM_APPEND \<or> d_index dst > tail then tail else d_index dst)
             in
             bind_e (source_bytes ext h dst dst_ser src limit)
               (\<lambda>(src_avail, src_len_raw0, src_size_raw0).
             let src_len_raw = (if limit \<ge> 0 then nat limit else src_len_raw0);
                 src_size_raw = (if limit \<ge> 0 then nat limit else src_size_raw0);
                 src_size_total = (if AM_LINE flags then (src_size_raw + 1) * nat dups
                                   else src_size_raw * nat dups);
                 src_len_total = (if AM_LINE flags then (src_len_raw + 1) * nat dups
                                  else src_len_raw * nat dups)
             in
             if src_size_raw > length src_avail then Inl Out_Of_Bounds
             else
               bind_e
                 (if vsym = SYM_APPEND \<or> vsym = SYM_INSERT
                  then expand_for_insert dst_ser dst_off dst_idx tail src_size_total src_len_total
                  else resize_for_change dst_ser dst flags part dst_off dst_idx tail
                         src_size_total src_len_total)
                 (\<lambda>ser1.
               bind_e (copy_dups (nat dups) (take src_size_raw src_avail) (AM_LINE flags) dst_off
                         (s_bytes ser1))
                 (\<lambda>bytes2.
               bind_e (bookmark_cleanup vsym dst_ser (ser1\<lparr>s_bytes := bytes2\<rparr>)) (\<lambda>ser3.
                 Inr (h[d_series dst := ser3],
                      if vsym = SYM_APPEND then 0 else dst_idx + src_len_total)))))))"

subsection \<open>Invariant of a collection pass\<close>

text \<open>During a pass every canon symbol with a nonzero entry in the binding table is the
  canon of a key that sits in the collection buffer.\<close>

definition binds_in_buffer :: "state \<Rightarrow> bool" where
  "binds_in_buffer s \<longleftrightarrow>
     (\<forall>c. Bind_Table s c \<noteq> 0 \<longrightarrow> c \<in> VAL_TYPESET_CANON s ` set (BUF_COLLECT s))"

subsection \<open>The result of a merge\<close>

text \<open>The binding table of a collection pass in good order: the keys of the buffer after
  its root key have distinct canons, the table is zero off their canons, and it holds for
  the canon of each key the index of the key in the buffer.\<close>

definition indexed :: "(sym \<Rightarrow> sym) \<Rightarrow> key list \<Rightarrow> (sym \<Rightarrow> int) \<Rightarrow> bool" where
  "indexed cn buf b \<longleftrightarrow>
     buf \<noteq> [] \<and> distinct (map cn (map k_sym (tl buf))) \<and>
     (\<forall>c. b c \<noteq> 0 \<longrightarrow> c \<in> set (map cn (map k_sym (tl buf)))) \<and>
     (\<forall>i. 0 < i \<and> i < length buf \<longrightarrow> b (cn (k_sym (buf ! i))) = int i)"

text \<open>The merge as the specification words it, to be compared with
  \<open>Merge_Contexts_Selfish\<close>: the keys of the first parent, then the keys of the second whose
  canon the first lacks; for a canon the value of the second parent if it has the key, else
  the value of the first; for \<open>self\<close> the child itself, for any other key the deep copy of
  the value.\<close>

definition merged_keys :: "(sym \<Rightarrow> sym) \<Rightarrow> key list \<Rightarrow> key list \<Rightarrow> key list" where
  "merged_keys cn keys1 keys2 =
     keys1 @ filter (\<lambda>k. cn (k_sym k) \<notin> set (map cn (map k_sym keys1))) keys2"

definition merged_val ::
  "(sym \<Rightarrow> sym) \<Rightarrow> key list \<Rightarrow> val list \<Rightarrow> key list \<Rightarrow> val list \<Rightarrow> sym \<Rightarrow> val" where
  "merged_val cn keys1 vars1 keys2 vars2 c =
     (case map_of (zip (map cn (map k_sym keys2)) vars2) c of
        Some v \<Rightarrow> v
      | None \<Rightarrow> (case map_of (zip (map cn (map k_sym keys1)) vars1) c of
                   Some v \<Rightarrow> v
                 | None \<Rightarrow> Trash))"

definition merged_var ::
  "(sym \<Rightarrow> sym) \<Rightarrow> (nat \<Rightarrow> nat) \<Rightarrow> key list \<Rightarrow> val list \<Rightarrow> key list \<Rightarrow> val list \<Rightarrow> val
     \<Rightarrow> key \<Rightarrow> val" where
  "merged_var cn cl keys1 vars1 keys2 vars2 self k =
     (if cn (k_sym k) = cn SYM_SELF then self
      else clone_val cl (merged_val cn keys1 vars1 keys2 vars2 (cn (k_sym k))))"

subsection \<open>The words Resolve selects\<close>

text \<open>The words and set-words at the top level of a block, the slot the loop over the
  target starts at, and the canons \<open>Resolve_Context\<close> selects for copying among the keys of
  the target from that slot on: all of them with an index or a void \<open>only_words\<close>, those
  named in the block with a block, none with any other value.\<close>

fun block_words :: "cell list \<Rightarrow> sym list" where
  "block_words [] = []"
| "block_words (AnyWord wk w # rest) =
     (if wk = REB_WORD \<or> wk = REB_SET_WORD then w # block_words rest else block_words rest)"
| "block_words (c # rest) = block_words rest"

definition resolve_start :: "only_words \<Rightarrow> nat" where
  "resolve_start ow = (if start_index ow \<noteq> 0 then start_index ow else 1)"

definition resolve_selects :: "(sym \<Rightarrow> sym) \<Rightarrow> only_words \<Rightarrow> sym \<Rightarrow> bool" where
  "resolve_selects cn ow c =
     (case ow of
        OW_Void \<Rightarrow> True
      | OW_Integer n \<Rightarrow> True
      | OW_Block cells \<Rightarrow> c \<in> set (map cn (block_words cells))
      | OW_Other \<Rightarrow> False)"

subsection \<open>Variables that are kept\<close>

text \<open>The varlist of \<open>target\<close> in heap \<open>h\<close> still holds, slot by slot, every value of \<open>vs\<close>
  that is not void (it may have grown, and slots that were void may have been filled).\<close>

definition keeps_set_vars :: "heap \<Rightarrow> addr \<Rightarrow> val list \<Rightarrow> bool" where
  "keeps_set_vars h target vs \<longleftrightarrow>
     (\<exists>tv. get_varlist h target = Inr tv \<and> length vs \<le> length (vl_vars tv) \<and>
        (\<forall>p < length vs. vs ! p \<noteq> Void \<longrightarrow> vl_vars tv ! p = vs ! p))"

subsection \<open>Example heaps and states\<close>

definition ex_rootkey :: key where
  "ex_rootkey = Val_Init_Typeset ALL_64 SYM_0"

definition ex_selfkey :: key where
  "ex_selfkey = (Val_Init_Typeset ALL_64 SYM_SELF)\<lparr>k_hidden := True\<rparr>"

text \<open>One object with the key \<open>10\<close>, holding the only reference to its managed keylist;
  node 2 is the object used as its meta.\<close>

definition ex_heap :: heap where
  "ex_heap =
     [KL \<lparr>kl_keys = [ex_rootkey, Val_Init_Typeset ALL_64 10], kl_shared = False,
          kl_managed = True, kl_meta = Some 2\<rparr>,
      VL \<lparr>vl_vars = [AnyContext REB_OBJECT 1 None, Integer 7], vl_keylist = Some 0,
          vl_context = True, vl_locked = False\<rparr>,
      VL \<lparr>vl_vars = [AnyContext REB_OBJECT 2 None], vl_keylist = Some 3,
          vl_context = True, vl_locked = False\<rparr>,
      KL \<lparr>kl_keys = [ex_rootkey], kl_shared = False, kl_managed = True, kl_meta = None\<rparr>]"

text \<open>Two objects (nodes 1 and 2) sharing the keylist in node 0.\<close>

definition ex_shared_heap :: heap where
  "ex_shared_heap =
     [KL \<lparr>kl_keys = [ex_rootkey, Val_Init_Typeset ALL_64 10], kl_shared = True,
          kl_managed = True, kl_meta = None\<rparr>,
      VL \<lparr>vl_vars = [AnyContext REB_OBJECT 1 None, Integer 7], vl_keylist = Some 0,
          vl_context = True, vl_locked = False\<rparr>,
      VL \<lparr>vl_vars = [AnyContext REB_OBJECT 2 None, Integer 8], vl_keylist = Some 0,
          vl_context = True, vl_locked = False\<rparr>]"

text \<open>A collection pass over \<open>ex_heap\<close> in which the key \<open>10\<close> has been collected at
  index 1.\<close>

definition ex_state :: state where
  "ex_state =
     \<lparr>heap = ex_heap,
      BUF_COLLECT = [ex_rootkey, Val_Init_Typeset NOT_REB_0 10],
      Bind_Table = (\<lambda>_. 0)(10 := 1), Bind_Table_len = 16,
      SYMBOL_TO_CANON = (\<lambda>w. w)\<rparr>"

definition ex_flags :: collect_flags where
  "ex_flags = \<lparr>COLLECT_ANY_WORD = False, COLLECT_DEEP = True, COLLECT_NO_DUP = True,
               COLLECT_ENSURE_SELF = False\<rparr>"

text \<open>\<open>ex_state\<close> after \<open>Grab_Collected_Keylist_Managed\<close> has handed back the keylist of the
  object in node 1.\<close>

definition ex_state_grabbed :: state where
  "ex_state_grabbed =
     ex_state\<lparr>heap :=
       ex_heap[0 := KL \<lparr>kl_keys = [ex_rootkey, Val_Init_Typeset ALL_64 10], kl_shared = False,
                        kl_managed = True, kl_meta = None\<rparr>]\<rparr>"

text \<open>The array \<open>[10, 20, 30]\<close>, a block value at its head, and the flags of a plain spliced
  insertion.\<close>

definition int_cell :: "int \<Rightarrow> mcell" where
  "int_cell n = \<lparr>c_val = M_Integer n, c_newline_before = False\<rparr>"

definition ex_arrays :: aheap where
  "ex_arrays = [\<lparr>a_cells = map int_cell [10, 20, 30], a_newline_at_tail = False\<rparr>]"

definition ex_self_block :: mcell where
  "ex_self_block = \<lparr>c_val = M_Block (Heap_Array 0) 0, c_newline_before = False\<rparr>"

definition ex_splice :: am_flags where
  "ex_splice = \<lparr>AM_SPLICE = True, AM_PART = False, AM_LINE = False\<rparr>"

text \<open>\<open>ex_arrays\<close> after the array has been inserted into itself twice at index 1; the second
  array is the shallow copy the insertion read from.\<close>

definition ex_arrays_inserted :: aheap where
  "ex_arrays_inserted =
     [\<lparr>a_cells = map int_cell [10, 10, 20, 30, 10, 20, 30, 20, 30], a_newline_at_tail = False\<rparr>,
      \<lparr>a_cells = map int_cell [10, 20, 30], a_newline_at_tail = False\<rparr>]"



text \<open>The text \<open>a\<close>, U+1F600, \<open>b\<close>, \<open>c\<close> (seven bytes, four codepoints), a string value and a
  binary value on it at index 2, and externals that mold nothing.\<close>

definition ex_text :: series where
  "ex_text = \<lparr>s_bytes = [0x61, 0xF0, 0x9F, 0x98, 0x80, 0x62, 0x63], s_is_string = True,
              s_len = 4, s_bookmark = None, s_read_only = False\<rparr>"

definition ex_string_at :: "nat \<Rightarrow> dst_value" where
  "ex_string_at i = \<lparr>d_is_binary = False, d_series = 0, d_index = i\<rparr>"

definition ex_binary_at :: "nat \<Rightarrow> dst_value" where
  "ex_binary_at i = \<lparr>d_is_binary = True, d_series = 0, d_index = i\<rparr>"

definition ex_externals :: externals where
  "ex_externals = \<lparr>Mold_Or_Form_Value = (\<lambda>h v. []), Form_Value = (\<lambda>h v. []),
                   Join_Binary_In_Byte_Buf = (\<lambda>h vs. Inr [])\<rparr>"

definition ex_no_flags :: am_flags where
  "ex_no_flags = \<lparr>AM_SPLICE = False, AM_PART = False, AM_LINE = False\<rparr>"

text \<open>\<open>ex_text\<close> after its second codepoint, U+1F600, has been changed to \<open>z\<close>.\<close>

definition ex_text_changed :: series where
  "ex_text_changed = \<lparr>s_bytes = [0x61, 0x7A, 0x62, 0x63], s_is_string = True,
              s_len = 4, s_bookmark = None, s_read_only = False\<rparr>"

text \<open>Two objects made with a hidden \<open>self\<close>: \<open>P1\<close> in node 1 with the words \<open>x\<close> (symbol 10)
  and \<open>y\<close> (symbol 11), \<open>P2\<close> in node 3 with the words \<open>y\<close> and \<open>z\<close> (symbol 12); the values of
  the words are parameters. The state is the one between collection passes: empty buffer,
  empty binding table.\<close>

definition ex_parents :: "val \<Rightarrow> val \<Rightarrow> val \<Rightarrow> val \<Rightarrow> heap" where
  "ex_parents x1 y1 y2 z2 =
     [KL \<lparr>kl_keys = [ex_rootkey, ex_selfkey, Val_Init_Typeset NOT_REB_0 10,
                      Val_Init_Typeset NOT_REB_0 11],
          kl_shared = False, kl_managed = True, kl_meta = None\<rparr>,
      VL \<lparr>vl_vars = [AnyContext REB_OBJECT 1 None, AnyContext REB_OBJECT 1 None, x1, y1],
          vl_keylist = Some 0, vl_context = True, vl_locked = False\<rparr>,
      KL \<lparr>kl_keys = [ex_rootkey, ex_selfkey, Val_Init_Typeset NOT_REB_0 11,
                      Val_Init_Typeset NOT_REB_0 12],
          kl_shared = False, kl_managed = True, kl_meta = None\<rparr>,
      VL \<lparr>vl_vars = [AnyContext REB_OBJECT 3 None, AnyContext REB_OBJECT 3 None, y2, z2],
          vl_keylist = Some 2, vl_context = True, vl_locked = False\<rparr>]"

definition ex_merge_state :: "val \<Rightarrow> val \<Rightarrow> val \<Rightarrow> val \<Rightarrow> state" where
  "ex_merge_state x1 y1 y2 z2 =
     \<lparr>heap = ex_parents x1 y1 y2 z2, BUF_COLLECT = [], Bind_Table = (\<lambda>_. 0),
      Bind_Table_len = 16, SYMBOL_TO_CANON = (\<lambda>w. w)\<rparr>"

text \<open>The variables of \<open>target\<close> after a run of \<open>Resolve_Context\<close>.\<close>

definition resolved_vars ::
  "state \<Rightarrow> addr \<Rightarrow> addr \<Rightarrow> only_words \<Rightarrow> bool \<Rightarrow> bool \<Rightarrow> error + val list" where
  "resolved_vars s target source ow all expand0 =
     bind_e (Resolve_Context s target source ow all expand0) (\<lambda>s'. CTX_VARS_HEAD (heap s') target)"

text \<open>A target in node 1 with the words \<open>a\<close> (symbol 10, set to 1), \<open>b\<close> (symbol 11, void) and
  \<open>c\<close> (symbol 12, set to 5, its key locked), and a source in node 3 holding 7, 8 and 9 for
  the same words.\<close>

definition ex_resolve_heap :: heap where
  "ex_resolve_heap =
     [KL \<lparr>kl_keys = [ex_rootkey, Val_Init_Typeset ALL_64 10, Val_Init_Typeset ALL_64 11,
                      (Val_Init_Typeset ALL_64 12)\<lparr>k_locked := True\<rparr>],
          kl_shared = False, kl_managed = True, kl_meta = None\<rparr>,
      VL \<lparr>vl_vars = [AnyContext REB_OBJECT 1 None, Integer 1, Void, Integer 5],
          vl_keylist = Some 0, vl_context = True, vl_locked = False\<rparr>,
      KL \<lparr>kl_keys = [ex_rootkey, Val_Init_Typeset ALL_64 10, Val_Init_Typeset ALL_64 11,
                      Val_Init_Typeset ALL_64 12],
          kl_shared = False, kl_managed = True, kl_meta = None\<rparr>,
      VL \<lparr>vl_vars = [AnyContext REB_OBJECT 3 None, Integer 7, Integer 8, Integer 9],
          vl_keylist = Some 2, vl_context = True, vl_locked = False\<rparr>]"

definition ex_resolve_state :: state where
  "ex_resolve_state =
     \<lparr>heap = ex_resolve_heap, BUF_COLLECT = [], Bind_Table = (\<lambda>_. 0),
      Bind_Table_len = 16, SYMBOL_TO_CANON = (\<lambda>w. w)\<rparr>"

text \<open>The same two objects made without a \<open>self\<close>: \<open>P1 {x: 1, y: 2}\<close> in node 1 and
  \<open>P2 {y: 3, z: 4}\<close> in node 3.\<close>

definition ex_selfless_parents :: heap where
  "ex_selfless_parents =
     [KL \<lparr>kl_keys = [ex_rootkey, Val_Init_Typeset NOT_REB_0 10, Val_Init_Typeset NOT_REB_0 11],
          kl_shared = False, kl_managed = True, kl_meta = None\<rparr>,
      VL \<lparr>vl_vars = [AnyContext REB_OBJECT 1 None, Integer 1, Integer 2],
          vl_keylist = Some 0, vl_context = True, vl_locked = False\<rparr>,
      KL \<lparr>kl_keys = [ex_rootkey, Val_Init_Typeset NOT_REB_0 11, Val_Init_Typeset NOT_REB_0 12],
          kl_shared = False, kl_managed = True, kl_meta = None\<rparr>,
      VL \<lparr>vl_vars = [AnyContext REB_OBJECT 3 None, Integer 3, Integer 4],
          vl_keylist = Some 2, vl_context = True, vl_locked = False\<rparr>]"

definition ex_selfless_state :: state where
  "ex_selfless_state =
     \<lparr>heap = ex_selfless_parents, BUF_COLLECT = [], Bind_Table = (\<lambda>_. 0),
      Bind_Table_len = 16, SYMBOL_TO_CANON = (\<lambda>w. w)\<rparr>"

section \<open>Verification: contexts\<close>

lemma bind_e_simps [simp]:
  "bind_e (Inl e) f = Inl e" "bind_e (Inr x) f = f x"
  by (simp_all add: bind_e_def)

lemma ASSERT_BIND_TABLE_EMPTY_zero:
  "Bind_Table s = (\<lambda>_. 0) \<Longrightarrow> ASSERT_BIND_TABLE_EMPTY s = Inr ()"
  by (simp add: ASSERT_BIND_TABLE_EMPTY_def list_all_iff)

lemma get_keylist_nth: "get_keylist h a = Inr kl \<longleftrightarrow> a < length h \<and> h ! a = KL kl"
  by (auto simp: get_keylist_def split: node.splits)

lemma get_varlist_nth: "get_varlist h a = Inr v \<longleftrightarrow> a < length h \<and> h ! a = VL v"
  by (auto simp: get_varlist_def split: node.splits)

lemmas heap_defs = CTX_KEYLIST_def Copy_Array_Extra_Shallow_vars_def Copy_Array_Shallow_vars_def
  Copy_Array_Extra_Shallow_keys_def alloc_def INIT_CTX_KEYLIST_SHARED_def
  INIT_CTX_KEYLIST_UNIQUE_def get_keylist_def get_varlist_def nth_list_update nth_append
  MANAGE_ARRAY_def set_varlist_flag_def set_rootvar_varlist_def INIT_CONTEXT_META_def
  set_meta_def Let_def

subsection \<open>Shallow copy: sharing of the key list\<close>

lemma alloc_update_one:
  "k < length h \<Longrightarrow> (h @ [x])[k := y, length h := z, k := y] = (h @ [z])[k := y]"
  by (rule nth_equalityI) (auto simp add: nth_list_update nth_append)

lemma alloc_update_two:
  "(h @ [a, b])[Suc (length h) := b1, length h := a1, Suc (length h) := b2, length h := a2]
     = h @ [a2, b2]"
  by (rule nth_equalityI) (auto simp add: nth_list_update nth_append nth_Cons' less_Suc_eq)

text \<open>
  Claim C1. For a context \<open>src\<close> that passes the two assertions of
  \<open>Copy_Context_Shallow_Extra\<close> (its varlist carries the context flag, its keylist is
  managed) and whose slot 0 is a context value, the copy returns a new context \<open>dest\<close>: a
  node that was not in the heap before the call, hence different from \<open>src\<close>, holding the
  variables of \<open>src\<close> with slot 0 pointing at \<open>dest\<close> itself; \<open>src\<close> is as it was. The
  resulting heap is given in full.

  With \<open>extra = 0\<close> the one new node is \<open>dest\<close>; it links the very same keylist address as
  \<open>src\<close>, \<open>src\<close> still links it, and that keylist is marked SHARED (its keys, flags and
  meta otherwise untouched).

  With \<open>extra > 0\<close> two nodes are new and nothing that was there has changed: a keylist at
  the first new address, hence different from the keylist of \<open>src\<close>, holding the same keys
  and meta, managed and not marked SHARED, and \<open>dest\<close>, which links it; the keylist of
  \<open>src\<close> is exactly as it was.
\<close>

theorem Copy_Context_Shallow_Extra_keylist:
  assumes sv: "get_varlist h src = Inr sv"
    and lk: "vl_keylist sv = Some k"
    and kl: "get_keylist h k = Inr kl"
    and fl: "vl_context sv" "kl_managed kl"
    and rv: "vl_vars sv = AnyContext kd a e # rest"
  shows "\<exists>h' dest. Copy_Context_Shallow_Extra h src extra = Inr (h', dest) \<and>
     length h \<le> dest \<and> dest \<noteq> src \<and>
     get_varlist h' src = Inr sv \<and>
     (extra = 0 \<longrightarrow>
        CTX_KEYLIST h' dest = Inr k \<and> CTX_KEYLIST h' src = Inr k \<and>
        get_keylist h' k = Inr (kl\<lparr>kl_shared := True\<rparr>) \<and>
        dest = length h \<and>
        h' = (h @ [VL \<lparr>vl_vars = AnyContext kd dest e # rest, vl_keylist = Some k,
                       vl_context = True, vl_locked = False\<rparr>])
               [k := KL (kl\<lparr>kl_shared := True\<rparr>)]) \<and>
     (0 < extra \<longrightarrow>
        (\<exists>k'. CTX_KEYLIST h' dest = Inr k' \<and> k' \<noteq> k \<and> length h \<le> k' \<and>
           CTX_KEYLIST h' src = Inr k \<and> get_keylist h' k = Inr kl \<and>
           get_keylist h' k' =
             Inr \<lparr>kl_keys = kl_keys kl, kl_shared = False, kl_managed = True,
                  kl_meta = kl_meta kl\<rparr> \<and>
           k' = length h \<and> dest = Suc (length h) \<and>
           h' = h @ [KL \<lparr>kl_keys = kl_keys kl, kl_shared = False, kl_managed = True,
                         kl_meta = kl_meta kl\<rparr>,
                     VL \<lparr>vl_vars = AnyContext kd dest e # rest, vl_keylist = Some k',
                         vl_context = True, vl_locked = False\<rparr>]))"
proof -
  have g: "src < length h" "h ! src = VL sv" "k < length h" "h ! k = KL kl"
    using sv kl by (simp_all add: get_keylist_nth get_varlist_nth)
  then have ne: "src \<noteq> k" by auto
  show ?thesis
    using lk fl rv g ne
    by (cases "extra = 0")
      (simp_all add: Copy_Context_Shallow_Extra_def heap_defs alloc_update_one alloc_update_two)
qed

theorem Copy_Context_Shallow_Extra_keylist_witness:
  "(\<exists>h'. Copy_Context_Shallow_Extra ex_heap 1 0 = Inr (h', 4) \<and>
      CTX_KEYLIST h' 4 = Inr 0 \<and> CTX_KEYLIST h' 1 = Inr 0 \<and>
      get_keylist h' 0 =
        Inr \<lparr>kl_keys = [ex_rootkey, Val_Init_Typeset ALL_64 10], kl_shared = True,
             kl_managed = True, kl_meta = Some 2\<rparr>) \<and>
   (\<exists>h'. Copy_Context_Shallow_Extra ex_heap 1 3 = Inr (h', 5) \<and>
      CTX_KEYLIST h' 5 = Inr 4 \<and> CTX_KEYLIST h' 1 = Inr 0 \<and>
      get_keylist h' 0 =
        Inr \<lparr>kl_keys = [ex_rootkey, Val_Init_Typeset ALL_64 10], kl_shared = False,
             kl_managed = True, kl_meta = Some 2\<rparr> \<and>
      get_keylist h' 4 =
        Inr \<lparr>kl_keys = [ex_rootkey, Val_Init_Typeset ALL_64 10], kl_shared = False,
             kl_managed = True, kl_meta = Some 2\<rparr>)"
proof -
  have sv: "get_varlist ex_heap 1 =
      Inr \<lparr>vl_vars = [AnyContext REB_OBJECT 1 None, Integer 7], vl_keylist = Some 0,
           vl_context = True, vl_locked = False\<rparr>"
    by (simp add: ex_heap_def get_varlist_def)
  have kl: "get_keylist ex_heap 0 =
      Inr \<lparr>kl_keys = [ex_rootkey, Val_Init_Typeset ALL_64 10], kl_shared = False,
           kl_managed = True, kl_meta = Some 2\<rparr>"
    by (simp add: ex_heap_def get_keylist_def)
  have len: "length ex_heap = 4"
    by (simp add: ex_heap_def)
  from Copy_Context_Shallow_Extra_keylist [OF sv _ kl, of REB_OBJECT 1 None "[Integer 7]" 0]
  have a: "\<exists>h'. Copy_Context_Shallow_Extra ex_heap 1 0 = Inr (h', 4) \<and>
      CTX_KEYLIST h' 4 = Inr 0 \<and> CTX_KEYLIST h' 1 = Inr 0 \<and>
      get_keylist h' 0 =
        Inr \<lparr>kl_keys = [ex_rootkey, Val_Init_Typeset ALL_64 10], kl_shared = True,
             kl_managed = True, kl_meta = Some 2\<rparr>"
    by (simp add: len)
  from Copy_Context_Shallow_Extra_keylist [OF sv _ kl, of REB_OBJECT 1 None "[Integer 7]" 3]
  have b: "\<exists>h'. Copy_Context_Shallow_Extra ex_heap 1 3 = Inr (h', 5) \<and>
      CTX_KEYLIST h' 5 = Inr 4 \<and> CTX_KEYLIST h' 1 = Inr 0 \<and>
      get_keylist h' 0 =
        Inr \<lparr>kl_keys = [ex_rootkey, Val_Init_Typeset ALL_64 10], kl_shared = False,
             kl_managed = True, kl_meta = Some 2\<rparr> \<and>
      get_keylist h' 4 =
        Inr \<lparr>kl_keys = [ex_rootkey, Val_Init_Typeset ALL_64 10], kl_shared = False,
             kl_managed = True, kl_meta = Some 2\<rparr>"
    by (simp add: len)
  from a b show ?thesis ..
qed

subsection \<open>Expansion of a context with a shared key list\<close>

text \<open>
  Claim C2. Let context \<open>c\<close> link the keylist \<open>k\<close>, let \<open>k\<close> be marked SHARED and
  \<open>delta > 0\<close>. Then \<open>Expand_Context\<close> returns, the node of \<open>k\<close> is exactly what it was (keys,
  flags, meta), every heap node other than the varlist of \<open>c\<close> is unchanged, so every other
  context that linked \<open>k\<close> still links it, and \<open>c\<close> now links a keylist at a fresh address
  that holds the same keys and the same meta pointer and is not marked SHARED.
\<close>

theorem Expand_Context_shared_copy_on_write:
  assumes cv: "get_varlist h c = Inr v"
    and lk: "vl_keylist v = Some k"
    and kl: "get_keylist h k = Inr kl"
    and sh: "kl_shared kl"
    and d: "0 < delta"
  shows "\<exists>h'. Expand_Context h c delta = Inr h' \<and>
           get_keylist h' k = Inr kl \<and>
           (\<forall>a < length h. a \<noteq> c \<longrightarrow> h' ! a = h ! a) \<and>
           (\<forall>c'. c' \<noteq> c \<longrightarrow> CTX_KEYLIST h c' = Inr k \<longrightarrow> CTX_KEYLIST h' c' = Inr k) \<and>
           CTX_KEYLIST h' c = Inr (length h) \<and>
           get_keylist h' (length h) =
             Inr \<lparr>kl_keys = kl_keys kl, kl_shared = False, kl_managed = True,
                  kl_meta = kl_meta kl\<rparr>"
proof -
  have g: "c < length h" "h ! c = VL v" "k < length h" "h ! k = KL kl"
    using cv kl by (simp_all add: get_keylist_nth get_varlist_nth)
  then have ne: "c \<noteq> k" by auto
  show ?thesis
    using g ne lk sh d
    by (auto simp add: Expand_Context_def Expand_Context_Keylist_Core_def heap_defs)
qed

theorem Expand_Context_shared_copy_on_write_witness:
  "\<exists>h'. Expand_Context ex_shared_heap 2 5 = Inr h' \<and>
      get_keylist h' 0 = get_keylist ex_shared_heap 0 \<and>
      CTX_KEYLIST h' 1 = Inr 0 \<and>
      CTX_KEYLIST h' 2 = Inr 3 \<and>
      get_keylist h' 3 =
        Inr \<lparr>kl_keys = [ex_rootkey, Val_Init_Typeset ALL_64 10], kl_shared = False,
             kl_managed = True, kl_meta = None\<rparr>"
proof -
  have cv: "get_varlist ex_shared_heap 2 =
      Inr \<lparr>vl_vars = [AnyContext REB_OBJECT 2 None, Integer 8], vl_keylist = Some 0,
           vl_context = True, vl_locked = False\<rparr>"
    by (simp add: ex_shared_heap_def get_varlist_def)
  have kl: "get_keylist ex_shared_heap 0 =
      Inr \<lparr>kl_keys = [ex_rootkey, Val_Init_Typeset ALL_64 10], kl_shared = True,
           kl_managed = True, kl_meta = None\<rparr>"
    by (simp add: ex_shared_heap_def get_keylist_def)
  have c1: "CTX_KEYLIST ex_shared_heap 1 = Inr 0"
    by (simp add: ex_shared_heap_def CTX_KEYLIST_def get_varlist_def)
  have len: "length ex_shared_heap = 3"
    by (simp add: ex_shared_heap_def)
  from Expand_Context_shared_copy_on_write [OF cv _ kl, of 5]
  obtain h' where h: "Expand_Context ex_shared_heap 2 5 = Inr h'"
      "get_keylist h' 0 = get_keylist ex_shared_heap 0"
      "\<forall>c'. c' \<noteq> 2 \<longrightarrow> CTX_KEYLIST ex_shared_heap c' = Inr 0 \<longrightarrow> CTX_KEYLIST h' c' = Inr 0"
      "CTX_KEYLIST h' 2 = Inr 3"
      "get_keylist h' 3 =
        Inr \<lparr>kl_keys = [ex_rootkey, Val_Init_Typeset ALL_64 10], kl_shared = False,
             kl_managed = True, kl_meta = None\<rparr>"
    using kl len by auto
  from h(3) c1 have "CTX_KEYLIST h' 1 = Inr 0" by simp
  with h show ?thesis by blast
qed

subsection \<open>Duplicate words during collection\<close>

lemma fold_reset: "fold (\<lambda>k b. b(f k := (0::int))) ks b c = (if c \<in> f ` set ks then 0 else b c)"
  by (induction ks arbitrary: b) auto

lemma reset_binds_zero:
  "binds_in_buffer s \<Longrightarrow> reset_binds s (BUF_COLLECT s) c = 0"
  by (auto simp: reset_binds_def fold_reset binds_in_buffer_def)

lemma inner_loop_inv:
  "binds_in_buffer s \<Longrightarrow>
   (case Collect_Context_Inner_Loop flags cells s of
      Inr s' \<Rightarrow> binds_in_buffer s' \<and> SYMBOL_TO_CANON s' = SYMBOL_TO_CANON s \<and> heap s' = heap s
    | Inl (e, s') \<Rightarrow> COLLECT_NO_DUP flags \<and> (\<exists>w. e = Dup_Vars w) \<and>
         (\<forall>c. Bind_Table s' c = 0) \<and> BUF_COLLECT s' = [] \<and> heap s' = heap s)"
proof (induction flags cells s rule: Collect_Context_Inner_Loop.induct)
  case (1 flags s)
  then show ?case by simp
next
  case (2 flags wk w rest s)
  let ?s1 = "s\<lparr>Bind_Table := (Bind_Table s)(SYMBOL_TO_CANON s w := int (length (BUF_COLLECT s))),
                BUF_COLLECT := BUF_COLLECT s @ [Val_Init_Typeset NOT_REB_0 w]\<rparr>"
  have inv1: "binds_in_buffer ?s1"
    using "2.prems" by (auto simp: binds_in_buffer_def VAL_TYPESET_CANON_def Val_Init_Typeset_def)
  show ?case
  proof (cases "Bind_Table s (SYMBOL_TO_CANON s w) = 0")
    case True
    show ?thesis
    proof (cases "wk = REB_SET_WORD \<or> COLLECT_ANY_WORD flags")
      case c: True
      from "2.IH"(1)[OF True c inv1] True c show ?thesis
        by (simp split: sum.splits prod.splits)
    next
      case c: False
      from "2.IH"(2)[OF True c "2.prems"] True c show ?thesis by simp
    qed
  next
    case False
    show ?thesis
    proof (cases "COLLECT_NO_DUP flags")
      case d: True
      with False "2.prems" show ?thesis by (simp add: reset_binds_zero)
    next
      case d: False
      from "2.IH"(3)[OF False d "2.prems"] False d show ?thesis by simp
    qed
  qed
next
  case (3 flags ak sub rest s)
  show ?case
  proof (cases "ANY_EVAL_BLOCK ak \<and> COLLECT_DEEP flags")
    case True
    note ih1 = "3.IH"(1)[OF True "3.prems"]
    show ?thesis
    proof (cases "Collect_Context_Inner_Loop flags sub s")
      case (Inl a)
      with ih1 True show ?thesis by (simp split: prod.splits)
    next
      case (Inr s1)
      with ih1 have inv1: "binds_in_buffer s1" and cn: "SYMBOL_TO_CANON s1 = SYMBOL_TO_CANON s"
        and hp: "heap s1 = heap s" by simp_all
      from "3.IH"(2)[OF True Inr inv1] Inr True cn hp show ?thesis
        by (simp split: sum.splits prod.splits)
    qed
  next
    case False
    from "3.IH"(3)[OF False "3.prems"] False show ?thesis by auto
  qed
next
  case (4 flags n rest s)
  then show ?case by simp
qed

text \<open>
  Claim C3. In a collection pass (every nonzero binding-table entry belongs to a key in the
  collection buffer), a word whose canon is already bound, met while the no-duplicates flag
  is set, makes \<open>Collect_Context_Inner_Loop\<close> fail with the duplicate-variable error, and the
  state the failure leaves behind has an all-zero binding table and an empty collection
  buffer. Conversely every failing run of the loop, at any nesting depth, is such a
  duplicate failure under the no-duplicates flag and leaves the binding table all zero and
  the buffer empty.
\<close>

theorem Collect_Context_Inner_Loop_dup_rollback:
  assumes "binds_in_buffer s"
  shows "(COLLECT_NO_DUP flags \<and> Bind_Table s (SYMBOL_TO_CANON s w) \<noteq> 0 \<longrightarrow>
            Collect_Context_Inner_Loop flags (AnyWord wk w # rest) s =
              Inl (Dup_Vars w, s\<lparr>Bind_Table := \<lambda>_. 0, BUF_COLLECT := []\<rparr>)) \<and>
         (\<forall>e s'. Collect_Context_Inner_Loop flags cells s = Inl (e, s') \<longrightarrow>
            COLLECT_NO_DUP flags \<and> (\<exists>w. e = Dup_Vars w) \<and>
            (\<forall>c. Bind_Table s' c = 0) \<and> BUF_COLLECT s' = [])"
proof -
  have "reset_binds s (BUF_COLLECT s) = (\<lambda>_. 0)"
    using assms by (auto simp: reset_binds_zero)
  moreover have "\<forall>e s'. Collect_Context_Inner_Loop flags cells s = Inl (e, s') \<longrightarrow>
            COLLECT_NO_DUP flags \<and> (\<exists>w. e = Dup_Vars w) \<and>
            (\<forall>c. Bind_Table s' c = 0) \<and> BUF_COLLECT s' = []"
    using inner_loop_inv[OF assms, of flags cells] by auto
  ultimately show ?thesis by simp
qed

theorem Collect_Context_Inner_Loop_dup_rollback_witness:
  "Collect_Context_Inner_Loop ex_flags
       [AnyWord REB_SET_WORD 11, AnyArray REB_BLOCK [AnyWord REB_WORD 10], AnyWord REB_SET_WORD 12]
       ex_state
     = Inl (Dup_Vars 10, ex_state\<lparr>Bind_Table := \<lambda>_. 0, BUF_COLLECT := []\<rparr>)"
proof -
  have inv: "binds_in_buffer ex_state"
    by (simp add: binds_in_buffer_def ex_state_def VAL_TYPESET_CANON_def Val_Init_Typeset_def)
  let ?s1 = "ex_state\<lparr>Bind_Table := (Bind_Table ex_state)(11 := 2),
      BUF_COLLECT := BUF_COLLECT ex_state @ [Val_Init_Typeset NOT_REB_0 11]\<rparr>"
  have inv1: "binds_in_buffer ?s1"
    by (simp add: binds_in_buffer_def ex_state_def VAL_TYPESET_CANON_def Val_Init_Typeset_def)
  have "Collect_Context_Inner_Loop ex_flags [AnyWord REB_WORD 10] ?s1 =
      Inl (Dup_Vars 10, ?s1\<lparr>Bind_Table := \<lambda>_. 0, BUF_COLLECT := []\<rparr>)"
    using Collect_Context_Inner_Loop_dup_rollback [OF inv1, of ex_flags 10 REB_WORD "[]"]
    by (simp add: ex_flags_def ex_state_def)
  then show ?thesis
    by (simp add: ex_flags_def ex_state_def ANY_EVAL_BLOCK_def)
qed

subsection \<open>Handing back the collected key list\<close>

text \<open>
  Claim C9 (as amended). Let the collection buffer be non-empty and \<open>prior\<close> be a context
  with a managed, non-empty keylist. If the buffer holds exactly as many keys as the keylist
  of \<open>prior\<close>, \<open>Grab_Collected_Keylist_Managed\<close> returns the address of that keylist and
  allocates nothing; the only change to the heap is that the meta pointer of that keylist is
  cleared. Otherwise, and whenever there is no prior context, it returns a freshly allocated,
  managed keylist holding the keys of the buffer, with no meta, and every existing node is
  unchanged. The buffer and the binding table are as before.
\<close>

theorem Grab_Collected_Keylist_Managed_result:
  assumes buf: "BUF_COLLECT s \<noteq> []"
    and pv: "get_varlist (heap s) p = Inr pv"
    and lk: "vl_keylist pv = Some pk"
    and kl: "get_keylist (heap s) pk = Inr pkl"
    and mg: "kl_managed pkl"
    and ne: "kl_keys pkl \<noteq> []"
  shows "Grab_Collected_Keylist_Managed s (Some p) =
     (if length (BUF_COLLECT s) = length (kl_keys pkl)
      then Inr (s\<lparr>heap := (heap s)[pk := KL (pkl\<lparr>kl_meta := None\<rparr>)]\<rparr>, pk)
      else Inr (s\<lparr>heap := heap s @ [KL \<lparr>kl_keys = BUF_COLLECT s, kl_shared = False,
                                           kl_managed = True, kl_meta = None\<rparr>]\<rparr>,
                length (heap s))) \<and>
    Grab_Collected_Keylist_Managed s None =
      Inr (s\<lparr>heap := heap s @ [KL \<lparr>kl_keys = BUF_COLLECT s, kl_shared = False,
                                           kl_managed = True, kl_meta = None\<rparr>]\<rparr>,
                length (heap s))"
proof -
  have g: "p < length (heap s)" "heap s ! p = VL pv" "pk < length (heap s)" "heap s ! pk = KL pkl"
    using pv kl by (simp_all add: get_keylist_nth get_varlist_nth)
  have l: "length (kl_keys pkl) - Suc 0 + 1 = length (kl_keys pkl)"
    using ne by (cases "kl_keys pkl") simp_all
  show ?thesis
    using g lk mg ne buf l
    by (auto simp add: Grab_Collected_Keylist_Managed_def CTX_LEN_def ctx_keys_def heap_defs)
qed

theorem Grab_Collected_Keylist_Managed_result_witness:
  "Grab_Collected_Keylist_Managed ex_state (Some 1) = Inr (ex_state_grabbed, 0) \<and>
   Grab_Collected_Keylist_Managed ex_state (Some 2) =
     Inr (ex_state\<lparr>heap := ex_heap @ [KL \<lparr>kl_keys = BUF_COLLECT ex_state, kl_shared = False,
                                           kl_managed = True, kl_meta = None\<rparr>]\<rparr>, 4)"
proof -
  have b: "BUF_COLLECT ex_state \<noteq> []" by (simp add: ex_state_def)
  have v1: "get_varlist (heap ex_state) 1 =
      Inr \<lparr>vl_vars = [AnyContext REB_OBJECT 1 None, Integer 7], vl_keylist = Some 0,
           vl_context = True, vl_locked = False\<rparr>"
    by (simp add: ex_state_def ex_heap_def get_varlist_def)
  have k0: "get_keylist (heap ex_state) 0 =
      Inr \<lparr>kl_keys = [ex_rootkey, Val_Init_Typeset ALL_64 10], kl_shared = False,
           kl_managed = True, kl_meta = Some 2\<rparr>"
    by (simp add: ex_state_def ex_heap_def get_keylist_def)
  have v2: "get_varlist (heap ex_state) 2 =
      Inr \<lparr>vl_vars = [AnyContext REB_OBJECT 2 None], vl_keylist = Some 3,
           vl_context = True, vl_locked = False\<rparr>"
    by (simp add: ex_state_def ex_heap_def get_varlist_def)
  have k3: "get_keylist (heap ex_state) 3 =
      Inr \<lparr>kl_keys = [ex_rootkey], kl_shared = False, kl_managed = True, kl_meta = None\<rparr>"
    by (simp add: ex_state_def ex_heap_def get_keylist_def)
  from Grab_Collected_Keylist_Managed_result [OF b v1 _ k0]
    Grab_Collected_Keylist_Managed_result [OF b v2 _ k3]
  show ?thesis
    by (simp add: ex_state_def ex_state_grabbed_def ex_heap_def)
qed

text \<open>The claim as stated fails: the prior keylist handed back is not unchanged when it
  carried a meta pointer.\<close>

theorem Grab_Collected_Keylist_Managed_unchanged_counterexample:
  "Grab_Collected_Keylist_Managed ex_state (Some 1) = Inr (ex_state_grabbed, 0) \<and>
   CTX_KEYLIST (heap ex_state) 1 = Inr 0 \<and>
   get_keylist (heap ex_state_grabbed) 0 \<noteq> get_keylist (heap ex_state) 0"
  by (simp add: Grab_Collected_Keylist_Managed_def CTX_LEN_def ctx_keys_def heap_defs
      ex_state_def ex_state_grabbed_def ex_heap_def)

section \<open>Verification: the splice algorithm on arrays\<close>


lemma set_newline_before_ok:
  assumes "a < length h" "i < length (a_cells (h ! a))"
  shows "\<exists>h'. set_newline_before h a i = Inr h' \<and> length h' = length h \<and>
           (\<forall>b. b \<noteq> a \<longrightarrow> h' ! b = h ! b) \<and>
           map c_val (a_cells (h' ! a)) = map c_val (a_cells (h ! a)) \<and>
           length (a_cells (h' ! a)) = length (a_cells (h ! a)) \<and>
           c_newline_before (a_cells (h' ! a) ! i)"
  using assms by (simp add: set_newline_before_def map_update list_update_same_conv)

lemma set_newline_before_keeps_flag:
  assumes "set_newline_before h a i = Inr h'" "j < length (a_cells (h ! a))"
    "c_newline_before (a_cells (h ! a) ! j)"
  shows "c_newline_before (a_cells (h' ! a) ! j)"
  using assms by (auto simp add: set_newline_before_def nth_list_update split: if_splits)

lemma set_newline_at_tail_ok:
  assumes "a < length h"
  shows "\<exists>h'. set_newline_at_tail h a b = Inr h' \<and> length h' = length h \<and>
           (\<forall>b. b \<noteq> a \<longrightarrow> h' ! b = h ! b) \<and>
           a_cells (h' ! a) = a_cells (h ! a)"
  using assms by (simp add: set_newline_at_tail_def)

lemma copy_one_vals:
  assumes d: "dst < length h" and c: "cp < length h" and ne: "cp \<noteq> dst"
    and i: "off + index < length (a_cells (h ! cp))"
    and k: "dst_idx < length (a_cells (h ! dst))"
  shows "\<exists>h1. copy_one dst (In_Array (Heap_Array cp) off) hn tn dup index dst_idx h = Inr h1 \<and>
           length h1 = length h \<and> (\<forall>b. b \<noteq> dst \<longrightarrow> h1 ! b = h ! b) \<and>
           map c_val (a_cells (h1 ! dst)) =
             (map c_val (a_cells (h ! dst)))[dst_idx := c_val (a_cells (h ! cp) ! (off + index))]"
proof -
  let ?c = "a_cells (h ! cp) ! (off + index)"
  let ?h1 = "h[dst := (h ! dst)\<lparr>a_cells := (a_cells (h ! dst))[dst_idx := ?c]\<rparr>]"
  have r: "read_src h (In_Array (Heap_Array cp) off) index = Inr ?c"
    using c i by (simp add: read_src_def get_array_def)
  have w: "write_cell h dst dst_idx ?c = Inr ?h1"
    using d k by (simp add: write_cell_def)
  have l1: "dst < length ?h1" "dst_idx < length (a_cells (?h1 ! dst))"
    using d k by simp_all
  have v1: "map c_val (a_cells (?h1 ! dst)) = (map c_val (a_cells (h ! dst)))[dst_idx := c_val ?c]"
    using d by (simp add: map_update)
  from set_newline_before_ok[OF l1] obtain h2 where
    h2: "set_newline_before ?h1 dst dst_idx = Inr h2" "length h2 = length ?h1"
      "\<forall>b. b \<noteq> dst \<longrightarrow> h2 ! b = ?h1 ! b"
      "map c_val (a_cells (h2 ! dst)) = map c_val (a_cells (?h1 ! dst))"
    by blast
  have l2: "dst < length h2" using h2(2) d by simp
  from set_newline_at_tail_ok[OF l2, of False] obtain h3 where
    h3: "set_newline_at_tail h2 dst False = Inr h3" "length h3 = length h2"
      "\<forall>b. b \<noteq> dst \<longrightarrow> h3 ! b = h2 ! b" "a_cells (h3 ! dst) = a_cells (h2 ! dst)"
    by blast
  show ?thesis
    using r w h2 h3 v1 d
    by (auto simp add: copy_one_def)
qed

lemma copy_loop_vals:
  assumes "dst < length h" "cp < length h" "cp \<noteq> dst"
    and "off + index + n \<le> length (a_cells (h ! cp))"
    and "dst_idx + n \<le> length (a_cells (h ! dst))"
  shows "\<exists>h'. copy_loop n dst (In_Array (Heap_Array cp) off) hn tn dup index dst_idx h
             = Inr (h', dst_idx + n) \<and>
           length h' = length h \<and> (\<forall>b. b \<noteq> dst \<longrightarrow> h' ! b = h ! b) \<and>
           map c_val (a_cells (h' ! dst)) =
             take dst_idx (map c_val (a_cells (h ! dst)))
               @ map c_val (take n (drop (off + index) (a_cells (h ! cp))))
               @ drop (dst_idx + n) (map c_val (a_cells (h ! dst)))"
  using assms
proof (induction n arbitrary: index dst_idx h)
  case 0
  then show ?case by simp
next
  case (Suc n)
  have i: "off + index < length (a_cells (h ! cp))" and k: "dst_idx < length (a_cells (h ! dst))"
    using Suc.prems by simp_all
  from copy_one_vals[OF Suc.prems(1-3) i k, of hn tn dup] obtain h1 where
    h1: "copy_one dst (In_Array (Heap_Array cp) off) hn tn dup index dst_idx h = Inr h1"
      "length h1 = length h" "\<forall>b. b \<noteq> dst \<longrightarrow> h1 ! b = h ! b"
      "map c_val (a_cells (h1 ! dst)) =
         (map c_val (a_cells (h ! dst)))[dst_idx := c_val (a_cells (h ! cp) ! (off + index))]"
    by blast
  have cp1: "h1 ! cp = h ! cp" using h1(3) Suc.prems(3) by simp
  have len1: "length (a_cells (h1 ! dst)) = length (a_cells (h ! dst))"
    using arg_cong[OF h1(4), of length] by simp
  have p1: "dst < length h1" "cp < length h1" using h1(2) Suc.prems by simp_all
  have p2: "off + Suc index + n \<le> length (a_cells (h1 ! cp))" using cp1 Suc.prems by simp
  have p3: "Suc dst_idx + n \<le> length (a_cells (h1 ! dst))" using len1 Suc.prems by simp
  from Suc.IH[OF p1 Suc.prems(3) p2 p3] obtain h' where
    h': "copy_loop n dst (In_Array (Heap_Array cp) off) hn tn dup (Suc index) (Suc dst_idx) h1
           = Inr (h', Suc dst_idx + n)"
      "length h' = length h1" "\<forall>b. b \<noteq> dst \<longrightarrow> h' ! b = h1 ! b"
      "map c_val (a_cells (h' ! dst)) =
             take (Suc dst_idx) (map c_val (a_cells (h1 ! dst)))
               @ map c_val (take n (drop (off + Suc index) (a_cells (h1 ! cp))))
               @ drop (Suc dst_idx + n) (map c_val (a_cells (h1 ! dst)))"
    by blast
  let ?zs = "map c_val (a_cells (h ! dst))"
  let ?ys = "a_cells (h ! cp)"
  have kz: "dst_idx < length ?zs" using k by simp
  have t1: "take (Suc dst_idx) (?zs[dst_idx := c_val (?ys ! (off + index))])
      = take dst_idx ?zs @ [c_val (?ys ! (off + index))]"
    using kz by (simp add: take_Suc_conv_app_nth)
  have t2: "drop (Suc dst_idx + n) (?zs[dst_idx := c_val (?ys ! (off + index))])
      = drop (dst_idx + Suc n) ?zs"
    by simp
  have t3: "take (Suc n) (drop (off + index) ?ys)
      = ?ys ! (off + index) # take n (drop (off + Suc index) ?ys)"
    using i by (simp add: Cons_nth_drop_Suc[symmetric])
  show ?case
    using h1 h' cp1 t1 t2 t3 by simp
qed

lemma length_concat_replicate: "length (concat (replicate n xs)) = n * length xs"
  by (induction n) simp_all

lemma dup_loop_vals:
  assumes "dst < length h" "cp < length h" "cp \<noteq> dst"
    and "off + m \<le> length (a_cells (h ! cp))"
    and "dst_idx + d * m \<le> length (a_cells (h ! dst))"
  shows "\<exists>h'. dup_loop d dst (In_Array (Heap_Array cp) off) hn tn (int m) dup dst_idx h
             = Inr (h', dst_idx + d * m) \<and>
           length h' = length h \<and> (\<forall>b. b \<noteq> dst \<longrightarrow> h' ! b = h ! b) \<and>
           map c_val (a_cells (h' ! dst)) =
             take dst_idx (map c_val (a_cells (h ! dst)))
               @ concat (replicate d (map c_val (take m (drop off (a_cells (h ! cp))))))
               @ drop (dst_idx + d * m) (map c_val (a_cells (h ! dst)))"
  using assms
proof (induction d arbitrary: dup dst_idx h)
  case 0
  then show ?case by simp
next
  case (Suc d)
  let ?zs = "map c_val (a_cells (h ! dst))"
  let ?ys = "map c_val (take m (drop off (a_cells (h ! cp))))"
  have q1: "off + 0 + m \<le> length (a_cells (h ! cp))" using Suc.prems by simp
  have q2: "dst_idx + m \<le> length (a_cells (h ! dst))" using Suc.prems by simp
  from copy_loop_vals[OF Suc.prems(1-3) q1 q2, of hn tn dup] obtain h1 where
    h1: "copy_loop m dst (In_Array (Heap_Array cp) off) hn tn dup 0 dst_idx h = Inr (h1, dst_idx + m)"
      "length h1 = length h" "\<forall>b. b \<noteq> dst \<longrightarrow> h1 ! b = h ! b"
      "map c_val (a_cells (h1 ! dst)) = take dst_idx ?zs @ ?ys @ drop (dst_idx + m) ?zs"
    by auto
  have cp1: "h1 ! cp = h ! cp" using h1(3) Suc.prems(3) by simp
  have ly: "length ?ys = m" using Suc.prems(4) by simp
  have len1: "length (a_cells (h1 ! dst)) = length (a_cells (h ! dst))"
    using arg_cong[OF h1(4), of length] q2 ly by simp
  have p1: "dst < length h1" "cp < length h1" using h1(2) Suc.prems by simp_all
  have p2: "off + m \<le> length (a_cells (h1 ! cp))" using cp1 Suc.prems by simp
  have p3: "(dst_idx + m) + d * m \<le> length (a_cells (h1 ! dst))"
    using len1 Suc.prems by (simp add: algebra_simps)
  from Suc.IH[OF p1 Suc.prems(3) p2 p3, of "Suc dup"] obtain h' where
    h': "dup_loop d dst (In_Array (Heap_Array cp) off) hn tn (int m) (Suc dup) (dst_idx + m) h1
           = Inr (h', dst_idx + m + d * m)"
      "length h' = length h1" "\<forall>b. b \<noteq> dst \<longrightarrow> h' ! b = h1 ! b"
      "map c_val (a_cells (h' ! dst)) =
             take (dst_idx + m) (map c_val (a_cells (h1 ! dst)))
               @ concat (replicate d (map c_val (take m (drop off (a_cells (h1 ! cp))))))
               @ drop (dst_idx + m + d * m) (map c_val (a_cells (h1 ! dst)))"
    by blast
  have lz: "dst_idx \<le> length ?zs" using q2 by simp
  have t1: "take (dst_idx + m) (take dst_idx ?zs @ ?ys @ drop (dst_idx + m) ?zs)
      = take dst_idx ?zs @ ?ys"
    using lz ly by (simp add: min_absorb2)
  have t2: "drop (dst_idx + m + d * m) (take dst_idx ?zs @ ?ys @ drop (dst_idx + m) ?zs)
      = drop (dst_idx + Suc d * m) ?zs"
    using lz ly by (simp add: min_absorb2 algebra_simps)
  show ?case
    using h1 h' cp1 t1 t2 by (simp add: algebra_simps)
qed

subsection \<open>Splicing an array into itself\<close>

text \<open>
  Claim C4 (as amended). For insert and append with \<open>AM_SPLICE\<close> and without \<open>AM_PART\<close>, a
  positive duplicate count and a source value that is a position \<open>j\<close> in the destination
  array itself, \<open>Modify_Array\<close> returns, and the values of the destination afterwards are
  the old cells before the insertion point, then \<open>dups\<close> copies of the old cells from \<open>j\<close>
  on, then the old cells from the insertion point on: every inserted value is a value the
  array held before the call, none is read from a moved or reopened cell. Every other array
  that existed is unchanged. On \<open>[10, 20, 30]\<close> at index 1 with \<open>dups = 2\<close> this is
  \<open>[10, 10, 20, 30, 10, 20, 30, 20, 30]\<close>.
\<close>

theorem Modify_Array_self_splice:
  assumes d: "dst < length h" and j: "j \<le> length (a_cells (h ! dst))" and dups: "0 < dups"
    and fl: "AM_SPLICE flags" "\<not> AM_PART flags" and vb: "vb \<noteq> SYM_CHANGE"
  shows "\<exists>h'. Modify_Array h vb dst i
               (Some \<lparr>c_val = M_Block (Heap_Array dst) j, c_newline_before = nb\<rparr>)
               flags dst_len dups
             = Inr (h', if vb = SYM_APPEND then 0
                        else (if i > length (a_cells (h ! dst)) then length (a_cells (h ! dst)) else i)
                               + nat dups * (length (a_cells (h ! dst)) - j)) \<and>
           map c_val (a_cells (h' ! dst)) =
             map c_val (take (if vb = SYM_APPEND then length (a_cells (h ! dst)) else i) (a_cells (h ! dst)))
               @ concat (replicate (nat dups) (map c_val (drop j (a_cells (h ! dst)))))
               @ map c_val (drop (if vb = SYM_APPEND then length (a_cells (h ! dst)) else i) (a_cells (h ! dst))) \<and>
           (\<forall>b < length h. b \<noteq> dst \<longrightarrow> h' ! b = h ! b)"
proof -
  let ?xs = "a_cells (h ! dst)"
  let ?src = "\<lparr>c_val = M_Block (Heap_Array dst) j, c_newline_before = nb\<rparr>"
  let ?idx = "if vb = SYM_APPEND \<or> i > length ?xs then length ?xs else i"
  let ?m = "length ?xs - j"
  let ?tn = "AM_LINE flags \<or> a_newline_at_tail (h ! dst)"
  let ?cp = "length h"
  let ?h1 = "h @ [\<lparr>a_cells = drop j ?xs, a_newline_at_tail = False\<rparr>]"
  let ?size = "dups * int ?m"
  let ?hn = "?idx = length ?xs \<and> a_newline_at_tail (h ! dst)"
  have ss: "splice_source h vb dst ?src flags dst_len
      = Inr (?h1, int ?m, ?tn, In_Array (Heap_Array ?cp) 0)"
    using d j fl vb
    by (auto simp add: splice_source_def get_array_def Copy_Array_At_Extra_Shallow_def Let_def)
  let ?h2 = "?h1[dst := (?h1 ! dst)\<lparr>a_cells :=
       take ?idx ?xs @ replicate (nat ?size) trash_cell @ drop ?idx ?xs\<rparr>]"
  have idx: "?idx \<le> length ?xs" by simp
  have nn: "\<not> ?size < 0" using dups by (simp add: not_less)
  have ex: "Expand_Series ?h1 dst ?idx ?size = Inr ?h2"
    using d nn idx by (simp add: Expand_Series_def nth_append del: replicate_eq_replicate)
  have sz: "nat ?size = nat dups * ?m"
    using dups by (simp add: nat_mult_distrib)
  have p1: "dst < length ?h2" "?cp < length ?h2" "?cp \<noteq> dst" using d by simp_all
  have c2: "a_cells (?h2 ! ?cp) = drop j ?xs" using d by (simp add: nth_append)
  have x2: "a_cells (?h2 ! dst) = take ?idx ?xs @ replicate (nat ?size) trash_cell @ drop ?idx ?xs"
    using d by (simp add: nth_append)
  have p2: "0 + ?m \<le> length (a_cells (?h2 ! ?cp))" unfolding c2 by simp
  have p3: "?idx + nat dups * ?m \<le> length (a_cells (?h2 ! dst))"
    unfolding x2 using sz idx by simp
  from dup_loop_vals[OF p1 p2 p3, of ?hn ?tn 0] obtain h3 where
    h3: "dup_loop (nat dups) dst (In_Array (Heap_Array ?cp) 0) ?hn ?tn (int ?m) 0 ?idx ?h2
           = Inr (h3, ?idx + nat dups * ?m)"
      "length h3 = length ?h2" "\<forall>b. b \<noteq> dst \<longrightarrow> h3 ! b = ?h2 ! b"
      "map c_val (a_cells (h3 ! dst)) =
             take ?idx (map c_val (a_cells (?h2 ! dst)))
               @ concat (replicate (nat dups) (map c_val (take ?m (drop 0 (a_cells (?h2 ! ?cp))))))
               @ drop (?idx + nat dups * ?m) (map c_val (a_cells (?h2 ! dst)))"
    by blast
  have v3: "map c_val (a_cells (h3 ! dst)) =
      map c_val (take ?idx ?xs) @ concat (replicate (nat dups) (map c_val (drop j ?xs)))
        @ map c_val (drop ?idx ?xs)"
    unfolding h3(4) c2 x2 using idx sz
    by (simp add: take_map drop_map min_absorb2 del: replicate_eq_replicate)
  have l3: "length (a_cells (h3 ! dst)) = length ?xs + nat dups * ?m"
    using arg_cong[OF v3, of length] idx by (simp add: length_concat_replicate)
  have d3: "dst < length h3" using h3(2) d by simp
  have g3: "get_array h3 (Heap_Array dst) = Inr (h3 ! dst)" using d3 by (simp add: get_array_def)
  obtain h4 where h4: "(if ?tn then
                (if ?idx + nat dups * ?m = length (a_cells (h3 ! dst)) then set_newline_at_tail h3 dst True
                 else set_newline_before h3 dst (?idx + nat dups * ?m))
              else Inr h3) = Inr h4"
     "length h4 = length h3" "\<forall>b. b \<noteq> dst \<longrightarrow> h4 ! b = h3 ! b"
     "map c_val (a_cells (h4 ! dst)) = map c_val (a_cells (h3 ! dst))"
  proof (cases "?tn")
    case False
    then show ?thesis using that[of h3] by simp
  next
    case True
    show ?thesis
    proof (cases "?idx + nat dups * ?m = length (a_cells (h3 ! dst))")
      case e: True
      from set_newline_at_tail_ok[OF d3, of True] True e that show ?thesis by auto
    next
      case e: False
      then have "?idx + nat dups * ?m < length (a_cells (h3 ! dst))"
        using l3 idx by simp
      from set_newline_before_ok[OF d3 this] True e that show ?thesis by auto
    qed
  qed
  have d4: "dst < length h4" using h4(2) d3 by simp
  have g4: "get_array h4 (Heap_Array dst) = Inr (h4 ! dst)" using d4 by (simp add: get_array_def)
  obtain h5 where h5: "(if AM_LINE flags \<and> a_cells (h4 ! dst) \<noteq> [] then set_newline_before h4 dst 0
              else Inr h4) = Inr h5"
     "length h5 = length h4" "\<forall>b. b \<noteq> dst \<longrightarrow> h5 ! b = h4 ! b"
     "map c_val (a_cells (h5 ! dst)) = map c_val (a_cells (h4 ! dst))"
  proof (cases "AM_LINE flags \<and> a_cells (h4 ! dst) \<noteq> []")
    case False
    then show ?thesis using that[of h4] by auto
  next
    case True
    then have "0 < length (a_cells (h4 ! dst))" by simp
    from set_newline_before_ok[OF d4 this] True that show ?thesis by auto
  qed
  have g0: "get_array h (Heap_Array dst) = Inr (h ! dst)" using d by (simp add: get_array_def)
  have g1: "get_array ?h1 (Heap_Array dst) = Inr (h ! dst)" using d by (simp add: get_array_def nth_append)
  have res: "Modify_Array h vb dst i (Some ?src) flags dst_len dups
      = Inr (h5, if vb = SYM_APPEND then 0 else nat (?size + int ?idx))"
    unfolding Modify_Array_def
    using g0 g1 ss ex h3(1) g3 h4(1) g4 h5(1) dups vb fl(1)
    by (simp add: Let_def del: replicate_eq_replicate)
  have r2: "nat (?size + int ?idx) = ?idx + nat dups * ?m"
    using dups sz by (simp add: nat_add_distrib nat_mult_distrib)
  have oth: "\<forall>b < length h. b \<noteq> dst \<longrightarrow> h5 ! b = h ! b"
    using h5(3) h4(3) h3(3) by (simp add: nth_append)
  have tk: "take ?idx ?xs = take (if vb = SYM_APPEND then length ?xs else i) ?xs"
    "drop ?idx ?xs = drop (if vb = SYM_APPEND then length ?xs else i) ?xs"
    by auto
  show ?thesis
    using res r2 oth v3 h4(4) h5(4) tk
    by (intro exI[of _ h5]) auto
qed

theorem Modify_Array_self_splice_witness:
  "\<exists>h'. Modify_Array ex_arrays SYM_INSERT 0 1 (Some ex_self_block) ex_splice 0 2 = Inr (h', 7) \<and>
     map c_val (a_cells (h' ! 0)) = map M_Integer [10, 10, 20, 30, 10, 20, 30, 20, 30]"
proof -
  have a: "0 < length ex_arrays" "0 \<le> length (a_cells (ex_arrays ! 0))"
    "AM_SPLICE ex_splice" "\<not> AM_PART ex_splice"
    by (simp_all add: ex_arrays_def ex_splice_def)
  from Modify_Array_self_splice [OF a(1,2) _ a(3,4), of 2 SYM_INSERT 1 False 0]
  show ?thesis
    by (simp add: ex_arrays_def ex_self_block_def int_cell_def eval_nat_numeral)
qed

text \<open>The claim as stated fails: with \<open>dups = 2\<close> the result has nine elements; the six
  elements the claim lists are what \<open>dups = 1\<close> gives.\<close>

theorem Modify_Array_self_splice_counterexample:
  "Modify_Array ex_arrays SYM_INSERT 0 1 (Some ex_self_block) ex_splice 0 2
     = Inr (ex_arrays_inserted, 7) \<and>
   map c_val (a_cells (ex_arrays_inserted ! 0)) \<noteq> map M_Integer [10, 10, 20, 30, 20, 30]"
  by code_simp

subsection \<open>The explicit line flag marks the head of the array\<close>





section \<open>Verification: the splice algorithm on text and binary series\<close>

subsection \<open>Requests that ask for no action\<close>

lemma Modify_Array_no_action:
  assumes "dst_arr < length ah" and "(src = None \<and> vb \<noteq> SYM_CHANGE) \<or> dups \<le> 0"
  shows "Modify_Array ah vb dst_arr i src aflags dst_len dups
           = Inr (ah, if vb = SYM_APPEND then 0 else i)"
  using assms
  by (auto simp add: Modify_Array_def get_array_def Let_def split: option.splits)

lemma Modify_String_Or_Binary_no_action:
  assumes "d_series dst < length sh"
    and "(ssrc = S_Nulled \<and> vb \<noteq> SYM_CHANGE) \<or> dups \<le> 0"
  shows "Modify_String_Or_Binary ext sh dst vb ssrc sflags part dups =
           (case modify_checks (sh ! d_series dst) dst of
              Inl e \<Rightarrow> Inl e
            | Inr _ \<Rightarrow>
                if ssrc \<noteq> S_Nulled \<and> vb \<noteq> SYM_CHANGE \<and> AM_PART sflags \<and> part < 0
                then Inl Assert_Failed
                else Inr (sh, if vb = SYM_APPEND then 0 else d_index dst))"
proof (cases "modify_checks (sh ! d_series dst) dst")
  case (Inl e)
  with assms(1) show ?thesis
    by (simp add: Modify_String_Or_Binary_def get_series_def)
next
  case (Inr r)
  obtain off tl where r: "r = (off, tl)" by (cases r)
  from assms(2) show ?thesis
  proof
    assume "ssrc = S_Nulled \<and> vb \<noteq> SYM_CHANGE"
    with Inr r assms(1) show ?thesis
      by (cases vb) (simp_all add: Modify_String_Or_Binary_def get_series_def)
  next
    assume "dups \<le> 0"
    with Inr r assms(1) show ?thesis
      by (cases vb) (auto simp add: Modify_String_Or_Binary_def get_series_def Let_def)
  qed
qed

text \<open>
  Claim C7 (as amended). When the source is null for insert or append, or the duplicate
  count is not positive, \<open>Modify_Array\<close> returns the heap it was given and the natural
  index: 0 for append, the given index otherwise. \<open>Modify_String_Or_Binary\<close> first makes its
  up-front checks of the destination, also for such a request: a destination that fails
  them (a read-only series, or a BINARY! on a string series whose index is on a byte from
  \<open>0x80\<close> up) makes the call fail instead of return. A destination that passes them gets
  the heap it was given and the natural index back, the one other exit being the assertion
  that \<open>part\<close> is not negative, reached for insert and append with \<open>AM_PART\<close> and a source that
  is not null.
\<close>

theorem Modify_no_action:
  assumes "dst_arr < length ah" and "d_series dst < length sh"
    and "(src = None \<and> ssrc = S_Nulled \<and> vb \<noteq> SYM_CHANGE) \<or> dups \<le> 0"
  shows "Modify_Array ah vb dst_arr i src aflags dst_len dups
           = Inr (ah, if vb = SYM_APPEND then 0 else i) \<and>
         Modify_String_Or_Binary ext sh dst vb ssrc sflags part dups =
           (case modify_checks (sh ! d_series dst) dst of
              Inl e \<Rightarrow> Inl e
            | Inr _ \<Rightarrow>
                if ssrc \<noteq> S_Nulled \<and> vb \<noteq> SYM_CHANGE \<and> AM_PART sflags \<and> part < 0
                then Inl Assert_Failed
                else Inr (sh, if vb = SYM_APPEND then 0 else d_index dst))"
proof -
  from assms(3) have a: "(src = None \<and> vb \<noteq> SYM_CHANGE) \<or> dups \<le> 0"
    and s: "(ssrc = S_Nulled \<and> vb \<noteq> SYM_CHANGE) \<or> dups \<le> 0"
    by auto
  from Modify_Array_no_action[OF assms(1) a] Modify_String_Or_Binary_no_action[OF assms(2) s]
  show ?thesis by simp
qed

theorem Modify_no_action_witness:
  "Modify_Array ex_arrays SYM_APPEND 0 2 None ex_no_flags 0 1 = Inr (ex_arrays, 0) \<and>
   Modify_Array ex_arrays SYM_INSERT 0 2 (Some (int_cell 5)) ex_no_flags 0 0 = Inr (ex_arrays, 2) \<and>
   Modify_String_Or_Binary ex_externals [ex_text] (ex_string_at 2) SYM_APPEND S_Nulled ex_no_flags 0 1
     = Inr ([ex_text], 0) \<and>
   Modify_String_Or_Binary ex_externals [ex_text] (ex_string_at 2) SYM_INSERT (S_Char [0x7A]) ex_no_flags 0 0
     = Inr ([ex_text], 2) \<and>
   Modify_String_Or_Binary ex_externals [ex_text] (ex_binary_at 2) SYM_INSERT (S_Char [0x7A]) ex_no_flags 0 0
     = Inl Index_Codepoint_Modify"
proof -
  have l: "0 < length ex_arrays" "d_series (ex_string_at 2) < length [ex_text]"
    "d_series (ex_binary_at 2) < length [ex_text]"
    by (simp_all add: ex_arrays_def ex_string_at_def ex_binary_at_def)
  have c1: "modify_checks ex_text (ex_string_at 2) = Inr (5, 4)"
    by code_simp
  have c2: "modify_checks ex_text (ex_binary_at 2) = Inl Index_Codepoint_Modify"
    by code_simp
  from Modify_no_action [OF l(1) l(2), of None S_Nulled SYM_APPEND 1 2 ex_no_flags 0 ex_externals ex_no_flags 0]
    Modify_no_action [OF l(1) l(2), of "Some (int_cell 5)" "S_Char [0x7A]" SYM_INSERT 0 2 ex_no_flags 0 ex_externals ex_no_flags 0]
    Modify_no_action [OF l(1) l(3), of "Some (int_cell 5)" "S_Char [0x7A]" SYM_INSERT 0 2 ex_no_flags 0 ex_externals ex_no_flags 0]
  show ?thesis
    using c1 c2 by (simp add: ex_string_at_def ex_binary_at_def)
qed

text \<open>The claim as stated fails: for a BINARY! destination on a string series, positioned
  inside a codepoint, a null source to append does not return 0, the call fails.\<close>

theorem Modify_no_action_counterexample:
  "Modify_String_Or_Binary ex_externals [ex_text] (ex_binary_at 2) SYM_APPEND S_Nulled ex_no_flags 0 1
     = Inl Index_Codepoint_Modify"
  by code_simp

subsection \<open>Change on text: bytes and codepoints\<close>

lemma codepoints_append [simp]: "codepoints (xs @ ys) = codepoints xs + codepoints ys"
  by (simp add: codepoints_def)

lemma codepoints_Cons: "codepoints (b # bs) = (if is_continuation b then 0 else 1) + codepoints bs"
  by (simp add: codepoints_def)

lemma codepoints_all_continuation:
  "\<forall>b \<in> set bs. is_continuation b \<Longrightarrow> codepoints bs = 0"
  by (simp add: codepoints_def)

lemma codepoints_takeWhile_dropWhile:
  "codepoints bs = codepoints (dropWhile is_continuation bs)"
  by (induction bs) (simp_all add: codepoints_def)

lemma dropWhile_boundary:
  "rest = [] \<or> \<not> is_continuation (hd rest) \<Longrightarrow> dropWhile is_continuation rest = rest"
  by (cases rest) auto

text \<open>Stepping over the codepoints of a run that begins and ends on a codepoint boundary
  lands at its end.\<close>

lemma drop_codepoints_run:
  assumes "run = [] \<or> \<not> is_continuation (hd run)"
    and "rest = [] \<or> \<not> is_continuation (hd rest)"
  shows "drop_codepoints (codepoints run) (run @ rest) = rest"
  using assms
proof (induction run rule: length_induct)
  case (1 run)
  show ?case
  proof (cases run)
    case Nil
    then show ?thesis by (simp add: codepoints_def)
  next
    case (Cons b bs)
    with "1.prems"(1) have nb: "\<not> is_continuation b" by simp
    let ?bs' = "dropWhile is_continuation bs"
    have cp: "codepoints run = Suc (codepoints ?bs')"
      using Cons nb codepoints_takeWhile_dropWhile[of bs] by (simp add: codepoints_Cons)
    have dw: "dropWhile is_continuation (bs @ rest) = ?bs' @ rest"
    proof (cases "\<forall>x \<in> set bs. is_continuation x")
      case True
      then show ?thesis
        using dropWhile_boundary[OF "1.prems"(2)] by (simp add: dropWhile_append2)
    next
      case False
      then show ?thesis by (auto simp add: dropWhile_append1)
    qed
    have b': "?bs' = [] \<or> \<not> is_continuation (hd ?bs')"
      using hd_dropWhile[of is_continuation bs] by auto
    have lt: "length ?bs' < length run"
      using Cons length_dropWhile_le[of is_continuation bs] by simp
    have "drop_codepoints (codepoints ?bs') (?bs' @ rest) = rest"
      using "1.IH"[rule_format, OF lt b' "1.prems"(2)] .
    with cp dw Cons show ?thesis by simp
  qed
qed

lemma bookmark_cleanup_change:
  assumes "s_bookmark ser1 = None \<longleftrightarrow> s_bookmark dst_ser = None"
  shows "\<exists>ser3. bookmark_cleanup SYM_CHANGE dst_ser ser1 = Inr ser3 \<and>
           s_bytes ser3 = s_bytes ser1 \<and> s_len ser3 = s_len ser1 \<and>
           s_is_string ser3 = s_is_string ser1 \<and> s_read_only ser3 = s_read_only ser1"
  using assms by (auto simp add: bookmark_cleanup_def split: option.splits)

text \<open>
  Claim C8 (as amended). Let a text series hold the bytes \<open>pre @ mid @ post\<close>, where \<open>mid\<close> is a
  run of \<open>n \<ge> 1\<close> whole codepoints that starts at the destination index, and let its header
  length be its number of codepoints. A change that puts the one-byte codepoint \<open>c\<close> in the
  place of \<open>mid\<close> (without \<open>AM_PART\<close> this is one codepoint, \<open>n = 1\<close>; with \<open>AM_PART\<close> it is
  \<open>part = n\<close> codepoints) returns, and leaves the bytes \<open>pre @ [c] @ post\<close>: every byte of
  \<open>mid\<close> is gone, so no part of a codepoint stays behind. The byte size drops by
  \<open>length mid - 1\<close> and the codepoint length by \<open>n - 1\<close>. For one multi-byte codepoint
  replaced by a one-byte codepoint the byte size shrinks and the codepoint length stays
  the same.
\<close>

theorem Modify_String_Or_Binary_change_text:
  assumes d: "d_series dst < length sh"
    and tx: "\<not> d_is_binary dst" "s_is_string (sh ! d_series dst)"
      "\<not> s_read_only (sh ! d_series dst)"
    and bytes: "s_bytes (sh ! d_series dst) = pre @ mid @ post"
    and hdr: "s_len (sh ! d_series dst) = codepoints (pre @ mid @ post)"
    and pre: "pre = [] \<or> \<not> is_continuation (hd pre)"
    and mid: "mid \<noteq> []" "\<not> is_continuation (hd mid)"
    and post: "post = [] \<or> \<not> is_continuation (hd post)"
    and idx: "d_index dst = codepoints pre"
    and line: "\<not> AM_LINE flags"
    and part: "if AM_PART flags then part = int (codepoints mid) else codepoints mid = 1"
  shows "\<exists>ser'. Modify_String_Or_Binary ext sh dst SYM_CHANGE (S_Char [c]) flags part 1
             = Inr (sh[d_series dst := ser'], d_index dst + 1) \<and>
           s_bytes ser' = pre @ [c] @ post \<and>
           s_len ser' + codepoints mid = s_len (sh ! d_series dst) + 1 \<and>
           length (s_bytes ser') + length mid = length (s_bytes (sh ! d_series dst)) + 1"
proof -
  let ?ser = "sh ! d_series dst"
  let ?n = "codepoints mid"
  let ?off = "length pre"
  have n1: "1 \<le> ?n"
    using mid by (cases mid) (simp_all add: codepoints_Cons)
  have rb: "mid @ post = [] \<or> \<not> is_continuation (hd (mid @ post))"
    using mid by simp
  have at: "drop_codepoints (d_index dst) (s_bytes ?ser) = mid @ post"
    unfolding bytes idx using drop_codepoints_run[OF pre rb] .
  have off: "VAL_OFFSET_FOR_INDEX ?ser (d_index dst) = ?off"
    unfolding VAL_OFFSET_FOR_INDEX_def at by (simp add: bytes)
  have chk: "modify_checks ?ser dst = Inr (?off, s_len ?ser)"
    using tx off by (simp add: modify_checks_def)
  have lim: "VAL_SIZE_LIMIT_AT ?ser (d_index dst) (- 1) = (length (mid @ post), s_len ?ser - d_index dst)"
    unfolding VAL_SIZE_LIMIT_AT_def at by simp
  have dn: "drop_codepoints ?n (mid @ post) = post"
    using drop_codepoints_run[OF _ post, of mid] mid by simp
  have limn: "VAL_SIZE_LIMIT_AT ?ser (d_index dst) (int ?n) = (length mid, ?n)"
    unfolding VAL_SIZE_LIMIT_AT_def at using dn by (simp add: Let_def)
  have p1: "(if \<not> AM_PART flags then int (1::nat) else part) = int ?n"
    using part by (auto split: if_splits)
  have lenat: "?n \<le> s_len ?ser - d_index dst"
    unfolding hdr idx by simp
  have lm: "1 \<le> length mid" using mid by (cases mid) simp_all
  let ?bytes1 = "pre @ [last mid] @ post"
  have dl: "drop (length mid - Suc 0) mid = [last mid]"
  proof -
    have "drop (length (butlast mid)) (butlast mid @ [last mid]) = [last mid]" by simp
    then show ?thesis using mid(1) by simp
  qed
  have single: "\<not> Suc 0 < length mid \<Longrightarrow> s_bytes ?ser = ?bytes1"
  proof -
    assume "\<not> Suc 0 < length mid"
    with lm have "length mid = 1" by simp
    then obtain x where "mid = [x]" by (cases mid) simp_all
    then show ?thesis by (simp add: bytes)
  qed
  let ?ser1 = "?ser\<lparr>s_bytes := ?bytes1,
      s_bookmark := (case s_bookmark ?ser of None \<Rightarrow> None
         | Some (bi, bo) \<Rightarrow> if bi > d_index dst then Some (d_index dst, ?off) else Some (bi, bo)),
      s_len := s_len ?ser + 1 - ?n\<rparr>"
  have rs: "resize_for_change ?ser dst flags part ?off (d_index dst) (s_len ?ser) 1 1 = Inr ?ser1"
    unfolding resize_for_change_def
    using tx lim limn p1 lenat mid(1) dl single
    by (auto simp add: Let_def bytes)
  have cp: "copy_dups (nat 1) (take 1 [c]) (AM_LINE flags) ?off (s_bytes ?ser1)
      = Inr (pre @ [c] @ post)"
    using line by (simp add: write_bytes_def)
  let ?ser2 = "?ser1\<lparr>s_bytes := pre @ [c] @ post\<rparr>"
  have bk: "s_bookmark ?ser2 = None \<longleftrightarrow> s_bookmark ?ser = None"
    by (auto split: option.splits)
  from bookmark_cleanup_change[OF bk] obtain ser3 where
    s3: "bookmark_cleanup SYM_CHANGE ?ser ?ser2 = Inr ser3" "s_bytes ser3 = s_bytes ?ser2"
      "s_len ser3 = s_len ?ser2"
    by blast
  have gt: "\<not> d_index dst > s_len ?ser" unfolding hdr idx by simp
  have res: "Modify_String_Or_Binary ext sh dst SYM_CHANGE (S_Char [c]) flags part 1
      = Inr (sh[d_series dst := ser3], d_index dst + 1)"
    unfolding Modify_String_Or_Binary_def
    using d chk gt tx(2) line rs cp s3(1)
    by (simp add: get_series_def source_bytes_def Let_def)
  have "?n \<le> s_len ?ser" using lenat by simp
  then have l3: "s_len ser3 + ?n = s_len ?ser + 1"
    using s3(3) by simp
  have z3: "length (s_bytes ser3) + length mid = length (s_bytes ?ser) + 1"
    using s3(2) by (simp add: bytes)
  show ?thesis
    using res s3(2) l3 z3 by (intro exI[of _ ser3]) simp
qed

theorem Modify_String_Or_Binary_change_text_witness:
  "\<exists>ser'. Modify_String_Or_Binary ex_externals [ex_text] (ex_string_at 1) SYM_CHANGE
              (S_Char [0x7A]) ex_no_flags 0 1 = Inr ([ser'], 2) \<and>
     s_bytes ser' = [0x61, 0x7A, 0x62, 0x63] \<and> s_len ser' = 4"
proof -
  have a: "d_series (ex_string_at 1) < length [ex_text]"
    "\<not> d_is_binary (ex_string_at 1)" "s_is_string ([ex_text] ! d_series (ex_string_at 1))"
    "\<not> s_read_only ([ex_text] ! d_series (ex_string_at 1))"
    "s_bytes ([ex_text] ! d_series (ex_string_at 1)) = [0x61] @ [0xF0, 0x9F, 0x98, 0x80] @ [0x62, 0x63]"
    "s_len ([ex_text] ! d_series (ex_string_at 1))
       = codepoints ([0x61] @ [0xF0, 0x9F, 0x98, 0x80] @ [0x62, 0x63])"
    "[0x61 :: byte] = [] \<or> \<not> is_continuation (hd [0x61])"
    "[0xF0, 0x9F, 0x98, 0x80 :: byte] \<noteq> []"
    "\<not> is_continuation (hd [0xF0, 0x9F, 0x98, 0x80])"
    "[0x62, 0x63 :: byte] = [] \<or> \<not> is_continuation (hd [0x62, 0x63])"
    "d_index (ex_string_at 1) = codepoints [0x61]"
    "\<not> AM_LINE ex_no_flags"
    "if AM_PART ex_no_flags then 0 = int (codepoints [0xF0, 0x9F, 0x98, 0x80])
     else codepoints [0xF0, 0x9F, 0x98, 0x80] = 1"
    by code_simp+
  from Modify_String_Or_Binary_change_text [OF a, of ex_externals "0x7A"]
  obtain ser' where s: "Modify_String_Or_Binary ex_externals [ex_text] (ex_string_at 1) SYM_CHANGE
        (S_Char [0x7A]) ex_no_flags 0 1
      = Inr ([ex_text][d_series (ex_string_at 1) := ser'], d_index (ex_string_at 1) + 1)"
    "s_bytes ser' = [0x61] @ [0x7A] @ [0x62, 0x63]"
    "s_len ser' + codepoints [0xF0, 0x9F, 0x98, 0x80] = s_len ([ex_text] ! d_series (ex_string_at 1)) + 1"
    by blast
  have c: "codepoints [0xF0, 0x9F, 0x98, 0x80] = 1" "s_len ex_text = 4" by code_simp+
  from s c show ?thesis
    by (intro exI[of _ ser']) (simp add: ex_string_at_def)
qed

text \<open>The claim as stated fails: the change of one four-byte codepoint to a one-byte
  codepoint shrinks the byte size, from seven to four bytes, and leaves the codepoint
  length at four.\<close>

theorem Modify_String_Or_Binary_change_text_counterexample:
  "Modify_String_Or_Binary ex_externals [ex_text] (ex_string_at 1) SYM_CHANGE
       (S_Char [0x7A]) ex_no_flags 0 1 = Inr ([ex_text_changed], 2) \<and>
   s_len ex_text_changed = s_len ex_text \<and>
   length (s_bytes ex_text_changed) < length (s_bytes ex_text)"
  by code_simp

section \<open>Verification: merging and resolving contexts\<close>

subsection \<open>Resolve never overwrites a set variable unless told to\<close>

lemma bind_e_InrE:
  assumes "bind_e m f = Inr y"
  obtains x where "m = Inr x" "f x = Inr y"
  using assms by (cases m) simp_all

lemma KL_VL_distinct: "h ! a = KL kl \<Longrightarrow> h ! b = VL v \<Longrightarrow> a \<noteq> b"
  by auto

text \<open>What one pass of the loop does to the variables of the target: the length stays, only
  slot \<open>j\<close> can change, and without \<open>all\<close> it changes only if it held void.\<close>

lemma resolve_one_vars:
  assumes run: "resolve_one cn target source all j (h, b) = Inr (h', b')"
    and tv: "get_varlist h target = Inr tv"
  shows "\<exists>tv'. get_varlist h' target = Inr tv' \<and>
           length (vl_vars tv') = length (vl_vars tv) \<and>
           vl_keylist tv' = vl_keylist tv \<and>
           (\<forall>p. p \<noteq> j \<longrightarrow> vl_vars tv' ! p = vl_vars tv ! p) \<and>
           (\<not> all \<and> vl_vars tv ! j \<noteq> Void \<longrightarrow> vl_vars tv' ! j = vl_vars tv ! j) \<and>
           length h' = length h"
  using run tv unfolding resolve_one_def
  by (auto simp add: Let_def get_varlist_def get_keylist_def CTX_KEYLIST_def nth_list_update
      split: if_splits node.splits option.splits elim!: bind_e_InrE)

lemma resolve_loop_vars:
  assumes "resolve_loop n cn target source all j (h, b) = Inr (h', b')"
    and "get_varlist h target = Inr tv"
  shows "\<exists>tv'. get_varlist h' target = Inr tv' \<and>
           length (vl_vars tv') = length (vl_vars tv) \<and>
           vl_keylist tv' = vl_keylist tv \<and>
           (\<forall>p. p < j \<longrightarrow> vl_vars tv' ! p = vl_vars tv ! p) \<and>
           (\<not> all \<longrightarrow> (\<forall>p. vl_vars tv ! p \<noteq> Void \<longrightarrow> vl_vars tv' ! p = vl_vars tv ! p)) \<and>
           length h' = length h"
  using assms
proof (induction n arbitrary: j h b tv)
  case 0
  then show ?case by simp
next
  case (Suc n)
  from Suc.prems(1) obtain h1 b1 where
    one: "resolve_one cn target source all j (h, b) = Inr (h1, b1)" and
    rest: "resolve_loop n cn target source all (Suc j) (h1, b1) = Inr (h', b')"
    by (auto elim!: bind_e_InrE)
  from resolve_one_vars[OF one Suc.prems(2)] obtain tv1 where
    tv1: "get_varlist h1 target = Inr tv1" "length (vl_vars tv1) = length (vl_vars tv)"
      "vl_keylist tv1 = vl_keylist tv"
      "\<forall>p. p \<noteq> j \<longrightarrow> vl_vars tv1 ! p = vl_vars tv ! p"
      "\<not> all \<and> vl_vars tv ! j \<noteq> Void \<longrightarrow> vl_vars tv1 ! j = vl_vars tv ! j"
      "length h1 = length h"
    by blast
  from Suc.IH[OF rest tv1(1)] obtain tv' where
    tv': "get_varlist h' target = Inr tv'" "length (vl_vars tv') = length (vl_vars tv1)"
      "vl_keylist tv' = vl_keylist tv1"
      "\<forall>p. p < Suc j \<longrightarrow> vl_vars tv' ! p = vl_vars tv1 ! p"
      "\<not> all \<longrightarrow> (\<forall>p. vl_vars tv1 ! p \<noteq> Void \<longrightarrow> vl_vars tv' ! p = vl_vars tv1 ! p)"
      "length h' = length h1"
    by blast
  have keep: "\<not> all \<longrightarrow> (\<forall>p. vl_vars tv ! p \<noteq> Void \<longrightarrow> vl_vars tv' ! p = vl_vars tv ! p)"
  proof (intro impI allI)
    fix p assume na: "\<not> all" and nv: "vl_vars tv ! p \<noteq> Void"
    have "vl_vars tv1 ! p = vl_vars tv ! p"
      using tv1(4,5) na nv by (cases "p = j") auto
    with tv'(5) na nv show "vl_vars tv' ! p = vl_vars tv ! p" by simp
  qed
  have before: "\<forall>p. p < j \<longrightarrow> vl_vars tv' ! p = vl_vars tv ! p"
    using tv'(4) tv1(4) by auto
  show ?case
    using tv' tv1 keep before by auto
qed

text \<open>Expansion and the appending of new words keep the variables that were there.\<close>

lemma Expand_Context_vars:
  assumes "Expand_Context h target n = Inr h'" and "get_varlist h target = Inr tv"
  shows "\<exists>tv'. get_varlist h' target = Inr tv' \<and> vl_vars tv' = vl_vars tv"
  using assms
  by (auto simp add: Expand_Context_def Expand_Context_Keylist_Core_def heap_defs Let_def
      split: if_splits node.splits option.splits elim!: bind_e_InrE)

lemma Append_Context_Core_vars:
  assumes "Append_Context_Core h target w la = Inr (h1, slot)" and "get_varlist h target = Inr tv"
  shows "get_varlist h1 target = Inr (tv\<lparr>vl_vars := vl_vars tv @ [Void]\<rparr>) \<and>
         slot = length (vl_vars tv)"
  using assms
  by (auto simp add: Append_Context_Core_def heap_defs
      split: if_splits node.splits option.splits elim!: bind_e_InrE)

lemma add_new_vars:
  assumes "add_new cn target source keys n (h, bt) = Inr (h', bt')"
    and "get_varlist h target = Inr tv"
  shows "\<exists>tv'. get_varlist h' target = Inr tv' \<and>
           take (length (vl_vars tv)) (vl_vars tv') = vl_vars tv"
  using assms
proof (induction keys arbitrary: n h bt tv)
  case Nil
  then show ?case by simp
next
  case (Cons key keys)
  show ?case
  proof (cases "bt (cn (k_sym key)) \<noteq> 0")
    case False
    with Cons.prems(1) have "add_new cn target source keys (Suc n) (h, bt) = Inr (h', bt')"
      by simp
    from Cons.IH[OF this Cons.prems(2)] show ?thesis .
  next
    case True
    with Cons.prems(1) have
      "bind_e (Append_Context_Core h target (cn (k_sym key)) (k_lookback key)) (\<lambda>(h1, slot).
        bind_e (get_varlist h1 source) (\<lambda>sv.
        bind_e (get_varlist h1 target) (\<lambda>tv.
          if \<not> n < length (vl_vars sv) then Inl Out_Of_Bounds
          else add_new cn target source keys (Suc n)
                 (h1[target := VL (tv\<lparr>vl_vars := (vl_vars tv)[slot := vl_vars sv ! n]\<rparr>)],
                  bt(cn (k_sym key) := 0))))) = Inr (h', bt')"
      by simp
    then obtain r where ap0: "Append_Context_Core h target (cn (k_sym key)) (k_lookback key) = Inr r"
      and r1: "(case r of (h1, slot) \<Rightarrow>
        bind_e (get_varlist h1 source) (\<lambda>sv.
        bind_e (get_varlist h1 target) (\<lambda>tv.
          if \<not> n < length (vl_vars sv) then Inl Out_Of_Bounds
          else add_new cn target source keys (Suc n)
                 (h1[target := VL (tv\<lparr>vl_vars := (vl_vars tv)[slot := vl_vars sv ! n]\<rparr>)],
                  bt(cn (k_sym key) := 0))))) = Inr (h', bt')"
      by (rule bind_e_InrE)
    obtain h1 slot where r: "r = (h1, slot)" by (cases r)
    note ap = ap0[unfolded r]
    from r1 r obtain v tv1 where
      tv1: "get_varlist h1 target = Inr tv1" and
      rest: "add_new cn target source keys (Suc n)
                 (h1[target := VL (tv1\<lparr>vl_vars := (vl_vars tv1)[slot := v]\<rparr>)],
                  bt(cn (k_sym key) := 0)) = Inr (h', bt')"
      by (auto split: if_splits elim!: bind_e_InrE)
    from Append_Context_Core_vars[OF ap Cons.prems(2)] tv1
    have e: "tv1 = tv\<lparr>vl_vars := vl_vars tv @ [Void]\<rparr>" "slot = length (vl_vars tv)"
      by simp_all
    let ?tv2 = "tv1\<lparr>vl_vars := (vl_vars tv1)[slot := v]\<rparr>"
    have g2: "get_varlist (h1[target := VL ?tv2]) target = Inr ?tv2"
      using tv1 by (simp add: get_varlist_def split: if_splits)
    from Cons.IH[OF rest g2] obtain tv' where
      tv': "get_varlist h' target = Inr tv'"
        "take (length (vl_vars ?tv2)) (vl_vars tv') = vl_vars ?tv2"
      by blast
    have "take (length (vl_vars tv)) (vl_vars tv')
        = take (length (vl_vars tv)) (take (length (vl_vars ?tv2)) (vl_vars tv'))"
      using e by (simp add: min_absorb1)
    also have "\<dots> = vl_vars tv"
      unfolding tv'(2) using e by simp
    finally show ?thesis using tv'(1) by blast
  qed
qed

lemma keeps_set_vars_start:
  "get_varlist h target = Inr tv \<Longrightarrow> keeps_set_vars h target (vl_vars tv)"
  by (simp add: keeps_set_vars_def)

lemma keeps_set_vars_expand:
  assumes "Expand_Context h target n = Inr h'" and "keeps_set_vars h target vs"
  shows "keeps_set_vars h' target vs"
proof -
  from assms(2) obtain tv where tv: "get_varlist h target = Inr tv"
    "length vs \<le> length (vl_vars tv)"
    "\<forall>p < length vs. vs ! p \<noteq> Void \<longrightarrow> vl_vars tv ! p = vs ! p"
    by (auto simp add: keeps_set_vars_def)
  from Expand_Context_vars[OF assms(1) tv(1)] tv(2,3) show ?thesis
    by (auto simp add: keeps_set_vars_def)
qed

lemma keeps_set_vars_loop:
  assumes "resolve_loop n cn target source False j (h, b) = Inr (h', b')"
    and "keeps_set_vars h target vs"
  shows "keeps_set_vars h' target vs"
proof -
  from assms(2) obtain tv where tv: "get_varlist h target = Inr tv"
    "length vs \<le> length (vl_vars tv)"
    "\<forall>p < length vs. vs ! p \<noteq> Void \<longrightarrow> vl_vars tv ! p = vs ! p"
    by (auto simp add: keeps_set_vars_def)
  from resolve_loop_vars[OF assms(1) tv(1)] obtain tv' where
    tv': "get_varlist h' target = Inr tv'" "length (vl_vars tv') = length (vl_vars tv)"
      "\<forall>p. vl_vars tv ! p \<noteq> Void \<longrightarrow> vl_vars tv' ! p = vl_vars tv ! p"
    by auto
  have "\<forall>p < length vs. vs ! p \<noteq> Void \<longrightarrow> vl_vars tv' ! p = vs ! p"
    using tv(3) tv'(3) by auto
  with tv' tv(2) show ?thesis
    by (auto simp add: keeps_set_vars_def)
qed

lemma keeps_set_vars_add:
  assumes "add_new cn target source keys n (h, b) = Inr (h', b')"
    and "keeps_set_vars h target vs"
  shows "keeps_set_vars h' target vs"
proof -
  from assms(2) obtain tv where tv: "get_varlist h target = Inr tv"
    "length vs \<le> length (vl_vars tv)"
    "\<forall>p < length vs. vs ! p \<noteq> Void \<longrightarrow> vl_vars tv ! p = vs ! p"
    by (auto simp add: keeps_set_vars_def)
  from add_new_vars[OF assms(1) tv(1)] obtain tv' where
    tv': "get_varlist h' target = Inr tv'"
      "take (length (vl_vars tv)) (vl_vars tv') = vl_vars tv"
    by blast
  have len: "length (vl_vars tv) \<le> length (vl_vars tv')"
    using arg_cong[OF tv'(2), of length] by simp
  have "\<forall>p < length (vl_vars tv). vl_vars tv' ! p = vl_vars tv ! p"
    using tv'(2) by (metis nth_take)
  with tv(2,3) have "\<forall>p < length vs. vs ! p \<noteq> Void \<longrightarrow> vl_vars tv' ! p = vs ! p"
    by auto
  with tv'(1) len tv(2) show ?thesis
    by (auto simp add: keeps_set_vars_def)
qed

lemma Resolve_Context_keeps:
  assumes "Resolve_Context s target source ow False expand0 = Inr s'"
    and "get_varlist (heap s) target = Inr tv"
  shows "keeps_set_vars (heap s') target (vl_vars tv)"
  using assms keeps_set_vars_start[OF assms(2)]
  unfolding Resolve_Context_def Let_def
  by (auto split: if_splits prod.splits elim!: bind_e_InrE)
    (blast intro: keeps_set_vars_add keeps_set_vars_loop keeps_set_vars_expand)+

subsection \<open>Resolve copies the value of the source into a selected slot\<close>

text \<open>One pass of the loop, in full: the links and the symbols and lock flags of the keys
  stay, the source varlist stays, the binding table changes at the canon of the key of slot
  \<open>j\<close> only, and an unlocked slot whose key is bound to a positive index takes the value of
  the source at that index when \<open>all\<close> is set or the slot held void.\<close>

lemma resolve_one_full:
  assumes run: "resolve_one cn target source all j (h, b) = Inr (h', b')"
    and tv: "get_varlist h target = Inr tv" and lk: "vl_keylist tv = Some tk"
    and tkl: "get_keylist h tk = Inr tkl"
    and sv: "get_varlist h source = Inr sv" and ne: "source \<noteq> target"
  shows "\<exists>tv' tkl'. get_varlist h' target = Inr tv' \<and> vl_keylist tv' = Some tk \<and>
           get_keylist h' tk = Inr tkl' \<and>
           map k_sym (kl_keys tkl') = map k_sym (kl_keys tkl) \<and>
           map k_locked (kl_keys tkl') = map k_locked (kl_keys tkl) \<and>
           get_varlist h' source = Inr sv \<and>
           (\<forall>c. c \<noteq> cn (k_sym (kl_keys tkl ! j)) \<longrightarrow> b' c = b c) \<and>
           j < length (kl_keys tkl) \<and>
           (\<not> k_locked (kl_keys tkl ! j) \<and> 0 < b (cn (k_sym (kl_keys tkl ! j))) \<and>
              (all \<or> vl_vars tv ! j = Void) \<longrightarrow>
              j < length (vl_vars tv') \<and>
              vl_vars tv' ! j = vl_vars sv ! nat (b (cn (k_sym (kl_keys tkl ! j)))))"
proof -
  from tv sv tkl have n: "target < length h" "h ! target = VL tv" "source < length h"
    "h ! source = VL sv" "tk < length h" "h ! tk = KL tkl"
    by (simp_all add: get_varlist_nth get_keylist_nth)
  then have d: "tk \<noteq> target" "tk \<noteq> source" by auto
  have ms: "\<And>ks i f. i < length ks \<Longrightarrow> map k_sym (ks[i := (ks ! i)\<lparr>k_lookback := f\<rparr>]) = map k_sym ks"
    by (simp add: map_update list_update_same_conv)
  have ml: "\<And>ks i f. i < length ks \<Longrightarrow> map k_locked (ks[i := (ks ! i)\<lparr>k_lookback := f\<rparr>]) = map k_locked ks"
    by (simp add: map_update list_update_same_conv)
  show ?thesis
    using run n d ne lk unfolding resolve_one_def
    by (auto simp add: Let_def get_varlist_def get_keylist_def CTX_KEYLIST_def ctx_keys_def
        nth_list_update ms ml split: if_splits elim!: bind_e_InrE)
qed

text \<open>The loop: a slot \<open>j\<close> among those it visits, whose key has a canon that no other
  visited key has, is filled from the source index its canon is bound to.\<close>

lemma resolve_loop_copies:
  assumes run: "resolve_loop n cn target source all j0 (h, b) = Inr (h', b')"
    and tv: "get_varlist h target = Inr tv" and lk: "vl_keylist tv = Some tk"
    and tkl: "get_keylist h tk = Inr tkl"
    and sv: "get_varlist h source = Inr sv" and ne: "source \<noteq> target"
    and j: "j0 \<le> j" "j < j0 + n" "j < length (kl_keys tkl)"
    and dist: "distinct (map cn (take n (drop j0 (map k_sym (kl_keys tkl)))))"
    and unlocked: "\<not> k_locked (kl_keys tkl ! j)"
    and m: "0 < b (cn (k_sym (kl_keys tkl ! j)))"
    and av: "all \<or> vl_vars tv ! j = Void"
  shows "\<exists>tv'. get_varlist h' target = Inr tv' \<and> j < length (vl_vars tv') \<and>
           vl_vars tv' ! j = vl_vars sv ! nat (b (cn (k_sym (kl_keys tkl ! j))))"
  using assms
proof (induction n arbitrary: j0 h b tv tkl)
  case 0
  then show ?case by simp
next
  case (Suc n)
  from Suc.prems(1) obtain h1 b1 where
    one: "resolve_one cn target source all j0 (h, b) = Inr (h1, b1)" and
    rest: "resolve_loop n cn target source all (Suc j0) (h1, b1) = Inr (h', b')"
    by (auto elim!: bind_e_InrE)
  from resolve_one_full[OF one Suc.prems(2-6)] obtain tv1 tkl1 where
    f: "get_varlist h1 target = Inr tv1" "vl_keylist tv1 = Some tk"
      "get_keylist h1 tk = Inr tkl1"
      "map k_sym (kl_keys tkl1) = map k_sym (kl_keys tkl)"
      "map k_locked (kl_keys tkl1) = map k_locked (kl_keys tkl)"
      "get_varlist h1 source = Inr sv"
      "\<forall>c. c \<noteq> cn (k_sym (kl_keys tkl ! j0)) \<longrightarrow> b1 c = b c"
      "j0 < length (kl_keys tkl)"
      "\<not> k_locked (kl_keys tkl ! j0) \<and> 0 < b (cn (k_sym (kl_keys tkl ! j0))) \<and>
         (all \<or> vl_vars tv ! j0 = Void) \<longrightarrow>
         j0 < length (vl_vars tv1) \<and>
         vl_vars tv1 ! j0 = vl_vars sv ! nat (b (cn (k_sym (kl_keys tkl ! j0))))"
    by blast
  from resolve_one_vars[OF one Suc.prems(2)] f(1) have
    v1: "length (vl_vars tv1) = length (vl_vars tv)"
      "\<forall>p. p \<noteq> j0 \<longrightarrow> vl_vars tv1 ! p = vl_vars tv ! p"
    by auto
  show ?case
  proof (cases "j = j0")
    case True
    from f(9) Suc.prems(11,12,13) True have
      w: "j0 < length (vl_vars tv1)"
        "vl_vars tv1 ! j0 = vl_vars sv ! nat (b (cn (k_sym (kl_keys tkl ! j0))))"
      by auto
    from resolve_loop_vars[OF rest f(1)] obtain tv' where
      tv': "get_varlist h' target = Inr tv'" "length (vl_vars tv') = length (vl_vars tv1)"
        "\<forall>p. p < Suc j0 \<longrightarrow> vl_vars tv' ! p = vl_vars tv1 ! p"
      by blast
    from tv' w True show ?thesis by auto
  next
    case False
    with Suc.prems(7,8) have j': "Suc j0 \<le> j" "j < Suc j0 + n" by simp_all
    let ?syms = "map k_sym (kl_keys tkl)"
    have len: "length (kl_keys tkl1) = length (kl_keys tkl)"
      using arg_cong[OF f(4), of length] by simp
    have jl1: "j < length (kl_keys tkl1)" using Suc.prems(9) len by simp
    have symj: "k_sym (kl_keys tkl1 ! j) = k_sym (kl_keys tkl ! j)"
      using arg_cong[OF f(4), of "\<lambda>xs. xs ! j"] Suc.prems(9) len by simp
    have lockj: "k_locked (kl_keys tkl1 ! j) = k_locked (kl_keys tkl ! j)"
      using arg_cong[OF f(5), of "\<lambda>xs. xs ! j"] Suc.prems(9) len by simp
    have dr: "drop j0 ?syms = ?syms ! j0 # drop (Suc j0) ?syms"
      using f(8) Cons_nth_drop_Suc[of j0 ?syms] by simp
    from Suc.prems(10) have
      d1: "distinct (map cn (take n (drop (Suc j0) ?syms)))" and
      d2: "cn (?syms ! j0) \<notin> set (map cn (take n (drop (Suc j0) ?syms)))"
      unfolding dr by simp_all
    have "?syms ! j = take n (drop (Suc j0) ?syms) ! (j - Suc j0)"
      using j' Suc.prems(9) by simp
    moreover have "j - Suc j0 < length (take n (drop (Suc j0) ?syms))"
      using j' Suc.prems(9) by (simp add: less_diff_conv2)
    ultimately have "?syms ! j \<in> set (take n (drop (Suc j0) ?syms))"
      by (metis nth_mem)
    then have "cn (?syms ! j) \<in> set (map cn (take n (drop (Suc j0) ?syms)))"
      by (metis imageI set_map)
    with d2 have "cn (?syms ! j) \<noteq> cn (?syms ! j0)" by metis
    then have cne: "cn (k_sym (kl_keys tkl ! j)) \<noteq> cn (k_sym (kl_keys tkl ! j0))"
      using f(8) Suc.prems(9) by simp
    with f(7) have b1j: "b1 (cn (k_sym (kl_keys tkl ! j))) = b (cn (k_sym (kl_keys tkl ! j)))"
      by simp
    have d1': "distinct (map cn (take n (drop (Suc j0) (map k_sym (kl_keys tkl1)))))"
      using d1 f(4) by simp
    have ul: "\<not> k_locked (kl_keys tkl1 ! j)" using lockj Suc.prems(11) by simp
    have m1: "0 < b1 (cn (k_sym (kl_keys tkl1 ! j)))" using b1j symj Suc.prems(12) by simp
    have av1: "all \<or> vl_vars tv1 ! j = Void" using v1(2) False Suc.prems(13) by auto
    from Suc.IH[OF rest f(1) f(2) f(3) f(6) Suc.prems(6) j' jl1 d1' ul m1 av1]
    show ?thesis using b1j symj by simp
  qed
qed

text \<open>The marks in the binding table before the loop.\<close>

lemma mark_keys_in:
  "c \<in> set (map cn (map k_sym keys)) \<Longrightarrow> mark_keys cn keys b c = - 1"
proof -
  have "\<And>b. fold (\<lambda>key b. b(cn (k_sym key) := - 1)) keys b c
      = (if c \<in> set (map cn (map k_sym keys)) then - 1 else b c)"
    by (induction keys) auto
  then show "c \<in> set (map cn (map k_sym keys)) \<Longrightarrow> mark_keys cn keys b c = - 1"
    by (simp add: mark_keys_def)
qed

lemma mark_words_in:
  "c \<in> set (map cn (block_words cells)) \<Longrightarrow> fst (mark_words cn cells (b, n)) c = - 1"
proof -
  have "fst (mark_words cn cells (b, n)) c
      = (if c \<in> set (map cn (block_words cells)) then - 1 else b c)"
    by (induction cn cells "(b, n)" arbitrary: b n rule: mark_words.induct) auto
  then show "c \<in> set (map cn (block_words cells)) \<Longrightarrow> fst (mark_words cn cells (b, n)) c = - 1"
    by simp
qed

lemma mark_source_absent:
  "c \<notin> set (map cn (map k_sym keys)) \<Longrightarrow> mark_source cn every keys n b c = b c"
  by (induction keys arbitrary: n b) auto

lemma mark_source_at:
  assumes "distinct (map cn (map k_sym keys))" and "p < length keys"
    and "every \<or> b (cn (k_sym (keys ! p))) \<noteq> 0"
  shows "mark_source cn every keys n b (cn (k_sym (keys ! p))) = n + int p"
  using assms
proof (induction keys arbitrary: n b p)
  case Nil
  then show ?case by simp
next
  case (Cons key keys)
  show ?case
  proof (cases p)
    case 0
    from Cons.prems(1) have "cn (k_sym key) \<notin> set (map cn (map k_sym keys))" by simp
    from mark_source_absent[OF this] 0 Cons.prems(3) show ?thesis by simp
  next
    case (Suc q)
    with Cons.prems have q: "q < length keys" and d: "distinct (map cn (map k_sym keys))"
      and ne: "cn (k_sym key) \<noteq> cn (k_sym (keys ! q))"
      by auto
    let ?b1 = "if every \<or> b (cn (k_sym key)) \<noteq> 0 then b(cn (k_sym key) := n) else b"
    have c: "every \<or> ?b1 (cn (k_sym (keys ! q))) \<noteq> 0"
      using Cons.prems(3) Suc ne by auto
    have "mark_source cn every keys (n + 1) ?b1 (cn (k_sym (keys ! q))) = (n + 1) + int q"
      using d q c by (rule Cons.IH[where b = "?b1" and p = q and n = "n + 1"])
    with Suc show ?thesis by simp
  qed
qed

text \<open>Expansion of the target leaves its variables, its keys, and every other context.\<close>

lemma Expand_Context_shape:
  assumes "Expand_Context h c k = Inr h1"
    and "get_varlist h c = Inr tv" and "vl_keylist tv = Some tk"
    and "get_keylist h tk = Inr tkl"
  shows "h1 = h \<or>
         h1 = (h @ [KL \<lparr>kl_keys = kl_keys tkl, kl_shared = False, kl_managed = True,
                        kl_meta = kl_meta tkl\<rparr>])[c := VL (tv\<lparr>vl_keylist := Some (length h)\<rparr>)]"
proof -
  from assms have n: "c < length h" "h ! c = VL tv" "tk < length h" "h ! tk = KL tkl"
    by (simp_all add: get_varlist_nth get_keylist_nth)
  from assms have kl: "CTX_KEYLIST h c = Inr tk"
    by (simp add: CTX_KEYLIST_def)
  show ?thesis
  proof (cases "k = 0 \<or> \<not> kl_shared tkl")
    case True
    with assms kl show ?thesis
      by (auto simp add: Expand_Context_def Expand_Context_Keylist_Core_def split: if_splits)
  next
    case False
    with assms(1,2,4) kl n show ?thesis
      by (simp add: Expand_Context_def Expand_Context_Keylist_Core_def
          Copy_Array_Extra_Shallow_keys_def alloc_def set_meta_def MANAGE_ARRAY_def
          INIT_CTX_KEYLIST_UNIQUE_def get_keylist_def get_varlist_def nth_list_update
          nth_append Let_def)
  qed
qed

lemma Expand_Context_frame:
  assumes "Expand_Context h target k = Inr h1"
    and "get_varlist h target = Inr tv" and "vl_keylist tv = Some tk"
    and "get_keylist h tk = Inr tkl"
    and "get_varlist h source = Inr sv" and "source \<noteq> target"
    and "get_keylist h sk = Inr skl"
  shows "\<exists>tv1 tk1 tkl1. get_varlist h1 target = Inr tv1 \<and> vl_vars tv1 = vl_vars tv \<and>
           vl_keylist tv1 = Some tk1 \<and> get_keylist h1 tk1 = Inr tkl1 \<and>
           kl_keys tkl1 = kl_keys tkl \<and>
           get_varlist h1 source = Inr sv \<and> get_keylist h1 sk = Inr skl"
proof -
  from assms have n: "target < length h" "h ! target = VL tv" "source < length h"
    "h ! source = VL sv" "tk < length h" "h ! tk = KL tkl" "sk < length h" "h ! sk = KL skl"
    by (simp_all add: get_varlist_nth get_keylist_nth)
  then have d: "sk \<noteq> target" by auto
  from Expand_Context_shape[OF assms(1-4)] show ?thesis
  proof
    assume "h1 = h"
    with assms show ?thesis by simp
  next
    assume h1: "h1 = (h @ [KL \<lparr>kl_keys = kl_keys tkl, kl_shared = False, kl_managed = True,
                        kl_meta = kl_meta tkl\<rparr>])[target := VL (tv\<lparr>vl_keylist := Some (length h)\<rparr>)]"
    have "get_varlist h1 target = Inr (tv\<lparr>vl_keylist := Some (length h)\<rparr>)"
      using n by (simp add: h1 get_varlist_def nth_list_update)
    moreover have "get_keylist h1 (length h) = Inr \<lparr>kl_keys = kl_keys tkl, kl_shared = False,
        kl_managed = True, kl_meta = kl_meta tkl\<rparr>"
      using n by (simp add: h1 get_keylist_def nth_list_update nth_append)
    moreover have "get_varlist h1 source = Inr sv"
      using n assms(6) by (simp add: h1 get_varlist_def nth_list_update nth_append)
    moreover have "get_keylist h1 sk = Inr skl"
      using n d by (simp add: h1 get_keylist_def nth_list_update nth_append)
    ultimately show ?thesis by simp
  qed
qed

lemma Resolve_Context_run:
  assumes run: "Resolve_Context s target source ow all expand0 = Inr s'"
    and keys: "ctx_keys (heap s) target = Inr tkeys"
    and far: "\<not> length tkeys - 1 < start_index ow"
  obtains h1 skeys tkeys1 h2 b3 where
    "h1 = heap s \<or> (\<exists>k. Expand_Context (heap s) target k = Inr h1)"
    "CTX_KEYS_HEAD h1 source = Inr skeys"
    "ctx_keys h1 target = Inr tkeys1"
    "resolve_loop (length tkeys1 - resolve_start ow) (SYMBOL_TO_CANON s) target source all
       (resolve_start ow)
       (h1, mark_source (SYMBOL_TO_CANON s) (ow = OW_Void) skeys 1
              (fst (resolve_marks (SYMBOL_TO_CANON s) ow tkeys (length tkeys - 1) (Bind_Table s))))
       = Inr (h2, b3)"
    "heap s' = h2 \<or>
       (\<exists>ks b4. add_new (SYMBOL_TO_CANON s) target source ks 1 (h2, b3) = Inr (heap s', b4))"
  using assms
  unfolding Resolve_Context_def Let_def resolve_start_def Collect_Keys_Start_def CTX_LEN_def
  by (auto split: if_splits prod.splits elim!: bind_e_InrE) blast+

lemma take_prefix_nth:
  assumes "take (length xs) ys = xs" and "j < length xs"
  shows "j < length ys \<and> ys ! j = xs ! j"
proof -
  from assms(1) have "length (take (length xs) ys) = length xs" by simp
  then have le: "length xs \<le> length ys" by simp
  have "take (length xs) ys ! j = ys ! j" using assms(2) by simp
  with assms le show ?thesis by simp
qed

lemma resolve_marks_selected:
  assumes sel: "resolve_selects cn ow (cn (k_sym (tkeys ! j)))"
    and j: "resolve_start ow \<le> j" "j < length tkeys"
  shows "ow = OW_Void \<or> fst (resolve_marks cn ow tkeys tlen b) (cn (k_sym (tkeys ! j))) \<noteq> 0"
proof (cases ow)
  case OW_Void
  then show ?thesis by simp
next
  case (OW_Integer n)
  then have i: "start_index ow \<noteq> 0" "resolve_start ow = start_index ow"
    by (simp_all add: start_index_def resolve_start_def)
  from j i have "tkeys ! j = drop (start_index ow) tkeys ! (j - start_index ow)"
    and "j - start_index ow < length (drop (start_index ow) tkeys)"
    by simp_all
  then have "tkeys ! j \<in> set (drop (start_index ow) tkeys)"
    by (metis nth_mem)
  then have "cn (k_sym (tkeys ! j)) \<in> set (map cn (map k_sym (drop (start_index ow) tkeys)))"
    by simp
  from mark_keys_in[OF this] i show ?thesis
    by (simp add: resolve_marks_def Let_def)
next
  case (OW_Block cells)
  with sel have "cn (k_sym (tkeys ! j)) \<in> set (map cn (block_words cells))"
    by (simp add: resolve_selects_def)
  from mark_words_in[OF this] OW_Block show ?thesis
    by (simp add: resolve_marks_def Let_def start_index_def)
next
  case OW_Other
  with sel show ?thesis by (simp add: resolve_selects_def)
qed

lemma Resolve_Context_copies:
  assumes run: "Resolve_Context s target source ow all expand0 = Inr s'"
    and tv: "get_varlist (heap s) target = Inr tv" and tlk: "vl_keylist tv = Some tk"
    and tkl: "get_keylist (heap s) tk = Inr tkl"
    and sv: "get_varlist (heap s) source = Inr sv" and slk: "vl_keylist sv = Some sk"
    and skl: "get_keylist (heap s) sk = Inr skl"
    and ne: "source \<noteq> target"
    and dt: "distinct (map (SYMBOL_TO_CANON s) (map k_sym (drop (resolve_start ow) (kl_keys tkl))))"
    and ds: "distinct (map (SYMBOL_TO_CANON s) (map k_sym (tl (kl_keys skl))))"
    and j: "resolve_start ow \<le> j" "j < length (kl_keys tkl)"
    and unlocked: "\<not> k_locked (kl_keys tkl ! j)"
    and sel: "resolve_selects (SYMBOL_TO_CANON s) ow (SYMBOL_TO_CANON s (k_sym (kl_keys tkl ! j)))"
    and m: "0 < m" "m < length (kl_keys skl)"
      "SYMBOL_TO_CANON s (k_sym (kl_keys skl ! m)) = SYMBOL_TO_CANON s (k_sym (kl_keys tkl ! j))"
    and av: "all \<or> vl_vars tv ! j = Void"
  shows "\<exists>tv'. get_varlist (heap s') target = Inr tv' \<and> j < length (vl_vars tv') \<and>
           vl_vars tv' ! j = vl_vars sv ! m"
proof -
  let ?cn = "SYMBOL_TO_CANON s"
  let ?c = "?cn (k_sym (kl_keys tkl ! j))"
  let ?b1 = "fst (resolve_marks ?cn ow (kl_keys tkl) (length (kl_keys tkl) - 1) (Bind_Table s))"
  have keys: "ctx_keys (heap s) target = Inr (kl_keys tkl)"
    using tv tlk tkl by (simp add: ctx_keys_def CTX_KEYLIST_def)
  have "start_index ow \<le> resolve_start ow" by (simp add: resolve_start_def)
  with j have far: "\<not> length (kl_keys tkl) - 1 < start_index ow" by simp
  from Resolve_Context_run[OF run keys far] obtain h1 skeys tkeys1 h2 b3 where
    e: "h1 = heap s \<or> (\<exists>k. Expand_Context (heap s) target k = Inr h1)" and
    sk1: "CTX_KEYS_HEAD h1 source = Inr skeys" and
    tk1: "ctx_keys h1 target = Inr tkeys1" and
    loop: "resolve_loop (length tkeys1 - resolve_start ow) ?cn target source all
       (resolve_start ow) (h1, mark_source ?cn (ow = OW_Void) skeys 1 ?b1) = Inr (h2, b3)" and
    fin: "heap s' = h2 \<or>
       (\<exists>ks b4. add_new ?cn target source ks 1 (h2, b3) = Inr (heap s', b4))"
    by blast
  have "\<exists>tv1 tk1 tkl1. get_varlist h1 target = Inr tv1 \<and> vl_vars tv1 = vl_vars tv \<and>
           vl_keylist tv1 = Some tk1 \<and> get_keylist h1 tk1 = Inr tkl1 \<and>
           kl_keys tkl1 = kl_keys tkl \<and>
           get_varlist h1 source = Inr sv \<and> get_keylist h1 sk = Inr skl"
    using e
  proof
    assume "h1 = heap s"
    with tv tlk tkl sv skl show ?thesis by simp
  next
    assume "\<exists>k. Expand_Context (heap s) target k = Inr h1"
    then obtain k where "Expand_Context (heap s) target k = Inr h1" ..
    from Expand_Context_frame[OF this tv tlk tkl sv ne skl] show ?thesis .
  qed
  then obtain tv1 tk1 tkl1 where
    tv1: "get_varlist h1 target = Inr tv1" and vars1: "vl_vars tv1 = vl_vars tv" and
    tlk1: "vl_keylist tv1 = Some tk1" and tkl1: "get_keylist h1 tk1 = Inr tkl1" and
    keys1: "kl_keys tkl1 = kl_keys tkl" and
    sv1: "get_varlist h1 source = Inr sv" and skl1: "get_keylist h1 sk = Inr skl"
    by blast
  from m(2) have "kl_keys skl \<noteq> []" by auto
  with sk1 sv1 slk skl1 have skeys: "skeys = tl (kl_keys skl)"
    by (simp add: CTX_KEYS_HEAD_def ctx_keys_def CTX_KEYLIST_def)
  from tk1 tv1 tlk1 tkl1 keys1 have tkeys1: "tkeys1 = kl_keys tkl"
    by (simp add: ctx_keys_def CTX_KEYLIST_def)
  from m(1,2) have p: "m - 1 < length (tl (kl_keys skl))"
    and at: "tl (kl_keys skl) ! (m - 1) = kl_keys skl ! m"
    by (simp_all add: nth_tl)
  from resolve_marks_selected[OF sel j] at m(3)
  have mk: "(ow = OW_Void) \<or> ?b1 (?cn (k_sym (tl (kl_keys skl) ! (m - 1)))) \<noteq> 0"
    by simp
  have "mark_source ?cn (ow = OW_Void) (tl (kl_keys skl)) 1 ?b1
      (?cn (k_sym (tl (kl_keys skl) ! (m - 1)))) = 1 + int (m - 1)"
    using ds p mk
    by (rule mark_source_at[where every = "ow = OW_Void" and b = "?b1" and p = "m - 1"
          and keys = "tl (kl_keys skl)" and n = 1 and cn = "?cn"])
  with at m(1,3)
  have bound: "mark_source ?cn (ow = OW_Void) (tl (kl_keys skl)) 1 ?b1 ?c = int m"
    by simp
  have dist: "distinct (map ?cn (take (length (kl_keys tkl1) - resolve_start ow)
      (drop (resolve_start ow) (map k_sym (kl_keys tkl1)))))"
    using dt by (simp add: keys1 drop_map)
  from resolve_loop_copies[OF loop[unfolded skeys tkeys1 keys1[symmetric]] tv1 tlk1 tkl1 sv1 ne
      j(1) _ _ dist] j unlocked bound av m(1)
  obtain tv2 where tv2: "get_varlist h2 target = Inr tv2" and
    len2: "j < length (vl_vars tv2)" and val2: "vl_vars tv2 ! j = vl_vars sv ! m"
    by (auto simp add: keys1 vars1)
  from fin show ?thesis
  proof
    assume "heap s' = h2"
    with tv2 len2 val2 show ?thesis by simp
  next
    assume "\<exists>ks b4. add_new ?cn target source ks 1 (h2, b3) = Inr (heap s', b4)"
    then obtain ks b4 where "add_new ?cn target source ks 1 (h2, b3) = Inr (heap s', b4)"
      by blast
    from add_new_vars[OF this tv2] obtain tv' where
      tv': "get_varlist (heap s') target = Inr tv'" and
      pre: "take (length (vl_vars tv2)) (vl_vars tv') = vl_vars tv2"
      by blast
    from take_prefix_nth[OF pre len2] tv' val2 show ?thesis by simp
  qed
qed

subsection \<open>The rule of Resolve_Context\<close>

text \<open>A locked key: the pass leaves the heap as it is.\<close>

lemma resolve_one_locked:
  assumes run: "resolve_one cn target source all j (h, b) = Inr (h', b')"
    and tv: "get_varlist h target = Inr tv" and lk: "vl_keylist tv = Some tk"
    and tkl: "get_keylist h tk = Inr tkl"
    and locked: "k_locked (kl_keys tkl ! j)"
  shows "h' = h"
  using assms unfolding resolve_one_def
  by (auto simp add: Let_def CTX_KEYLIST_def split: if_splits elim!: bind_e_InrE)

lemma resolve_loop_locked:
  assumes run: "resolve_loop n cn target source all j0 (h, b) = Inr (h', b')"
    and tv: "get_varlist h target = Inr tv" and lk: "vl_keylist tv = Some tk"
    and tkl: "get_keylist h tk = Inr tkl"
    and sv: "get_varlist h source = Inr sv" and ne: "source \<noteq> target"
    and p: "p < length (kl_keys tkl)" and locked: "k_locked (kl_keys tkl ! p)"
  shows "\<exists>tv'. get_varlist h' target = Inr tv' \<and> length (vl_vars tv') = length (vl_vars tv) \<and>
           vl_vars tv' ! p = vl_vars tv ! p"
  using assms
proof (induction n arbitrary: j0 h b tv tkl)
  case 0
  then show ?case by simp
next
  case (Suc n)
  from Suc.prems(1) obtain h1 b1 where
    one: "resolve_one cn target source all j0 (h, b) = Inr (h1, b1)" and
    rest: "resolve_loop n cn target source all (Suc j0) (h1, b1) = Inr (h', b')"
    by (auto elim!: bind_e_InrE)
  from resolve_one_full[OF one Suc.prems(2-6)] obtain tv1 tkl1 where
    f: "get_varlist h1 target = Inr tv1" "vl_keylist tv1 = Some tk"
      "get_keylist h1 tk = Inr tkl1"
      "map k_locked (kl_keys tkl1) = map k_locked (kl_keys tkl)"
      "get_varlist h1 source = Inr sv"
    by blast
  from resolve_one_vars[OF one Suc.prems(2)] f(1) have
    v1: "length (vl_vars tv1) = length (vl_vars tv)"
      "\<forall>q. q \<noteq> j0 \<longrightarrow> vl_vars tv1 ! q = vl_vars tv ! q"
    by auto
  have same: "vl_vars tv1 ! p = vl_vars tv ! p"
  proof (cases "p = j0")
    case True
    with Suc.prems(8) have "k_locked (kl_keys tkl ! j0)" by simp
    from resolve_one_locked[OF one Suc.prems(2-4) this] f(1) Suc.prems(2) show ?thesis
      by simp
  next
    case False
    with v1(2) show ?thesis by simp
  qed
  from f(4) have "length (kl_keys tkl1) = length (kl_keys tkl)"
    by (rule map_eq_imp_length_eq)
  with Suc.prems(7) have p1: "p < length (kl_keys tkl1)" by simp
  from f(4) have "map k_locked (kl_keys tkl1) ! p = map k_locked (kl_keys tkl) ! p"
    by simp
  with p1 Suc.prems(7,8) have l1: "k_locked (kl_keys tkl1 ! p)" by simp
  from Suc.IH[OF rest f(1,2,3,5) Suc.prems(6) p1 l1] same v1(1) show ?case
    by auto
qed

text \<open>A run that returns before its loops gives back the state it was given.\<close>

lemma Resolve_Context_early:
  assumes "Resolve_Context s target source ow all expand0 = Inr s'"
    and "ctx_keys (heap s) target = Inr tkeys"
    and "length tkeys - 1 < start_index ow"
  shows "s' = s"
  using assms
  apply (unfold Resolve_Context_def Let_def)
  apply (erule bind_e_InrE)+
  apply (simp add: CTX_LEN_def split: if_splits)
  done

lemma Resolve_Context_locked:
  assumes run: "Resolve_Context s target source ow all expand0 = Inr s'"
    and tv: "get_varlist (heap s) target = Inr tv" and tlk: "vl_keylist tv = Some tk"
    and tkl: "get_keylist (heap s) tk = Inr tkl"
    and sv: "get_varlist (heap s) source = Inr sv" and slk: "vl_keylist sv = Some sk"
    and skl: "get_keylist (heap s) sk = Inr skl"
    and ne: "source \<noteq> target"
    and p: "p < length (kl_keys tkl)" "p < length (vl_vars tv)"
    and locked: "k_locked (kl_keys tkl ! p)"
  shows "\<exists>tv'. get_varlist (heap s') target = Inr tv' \<and> p < length (vl_vars tv') \<and>
           vl_vars tv' ! p = vl_vars tv ! p"
proof -
  let ?cn = "SYMBOL_TO_CANON s"
  have keys: "ctx_keys (heap s) target = Inr (kl_keys tkl)"
    using tv tlk tkl by (simp add: ctx_keys_def CTX_KEYLIST_def)
  show ?thesis
  proof (cases "length (kl_keys tkl) - 1 < start_index ow")
    case True
    from Resolve_Context_early[OF run keys True] have "heap s' = heap s" by (rule arg_cong)
    with tv have "get_varlist (heap s') target = Inr tv" by (simp only:)
    with p(2) show ?thesis by blast
  next
    case far: False
    from Resolve_Context_run[OF run keys far] obtain h1 skeys tkeys1 h2 b3 where
      e: "h1 = heap s \<or> (\<exists>k. Expand_Context (heap s) target k = Inr h1)" and
      sk1: "CTX_KEYS_HEAD h1 source = Inr skeys" and
      tk1: "ctx_keys h1 target = Inr tkeys1" and
      loop: "resolve_loop (length tkeys1 - resolve_start ow) ?cn target source all
         (resolve_start ow)
         (h1, mark_source ?cn (ow = OW_Void) skeys 1
                (fst (resolve_marks ?cn ow (kl_keys tkl) (length (kl_keys tkl) - 1) (Bind_Table s))))
         = Inr (h2, b3)" and
      fin: "heap s' = h2 \<or>
         (\<exists>ks b4. add_new ?cn target source ks 1 (h2, b3) = Inr (heap s', b4))"
      by blast
    have "\<exists>tv1 tk1 tkl1. get_varlist h1 target = Inr tv1 \<and> vl_vars tv1 = vl_vars tv \<and>
             vl_keylist tv1 = Some tk1 \<and> get_keylist h1 tk1 = Inr tkl1 \<and>
             kl_keys tkl1 = kl_keys tkl \<and>
             get_varlist h1 source = Inr sv \<and> get_keylist h1 sk = Inr skl"
      using e
    proof
      assume "h1 = heap s"
      with tv tlk tkl sv skl show ?thesis by simp
    next
      assume "\<exists>k. Expand_Context (heap s) target k = Inr h1"
      then obtain k where "Expand_Context (heap s) target k = Inr h1" ..
      from Expand_Context_frame[OF this tv tlk tkl sv ne skl] show ?thesis .
    qed
    then obtain tv1 tk1 tkl1 where
      tv1: "get_varlist h1 target = Inr tv1" and vars1: "vl_vars tv1 = vl_vars tv" and
      tlk1: "vl_keylist tv1 = Some tk1" and tkl1: "get_keylist h1 tk1 = Inr tkl1" and
      keys1: "kl_keys tkl1 = kl_keys tkl" and
      sv1: "get_varlist h1 source = Inr sv"
      by blast
    from p(1) locked keys1 have p1: "p < length (kl_keys tkl1)" "k_locked (kl_keys tkl1 ! p)"
      by simp_all
    from resolve_loop_locked[OF loop tv1 tlk1 tkl1 sv1 ne p1] vars1 obtain tv2 where
      tv2: "get_varlist h2 target = Inr tv2" and
      len2: "length (vl_vars tv2) = length (vl_vars tv)" and
      val2: "vl_vars tv2 ! p = vl_vars tv ! p"
      by auto
    from len2 p(2) have pl: "p < length (vl_vars tv2)" by simp
    from fin show ?thesis
    proof
      assume "heap s' = h2"
      with tv2 pl val2 show ?thesis by simp
    next
      assume "\<exists>ks b4. add_new ?cn target source ks 1 (h2, b3) = Inr (heap s', b4)"
      then obtain ks b4 where "add_new ?cn target source ks 1 (h2, b3) = Inr (heap s', b4)"
        by blast
      from add_new_vars[OF this tv2] obtain tv' where
        tv': "get_varlist (heap s') target = Inr tv'" and
        pre: "take (length (vl_vars tv2)) (vl_vars tv') = vl_vars tv2"
        by blast
      from take_prefix_nth[OF pre pl] tv' val2 show ?thesis by simp
    qed
  qed
qed

text \<open>A run that returns has passed \<open>ASSERT_BIND_TABLE_EMPTY\<close> at its start and at its
  end.\<close>

lemma ASSERT_BIND_TABLE_EMPTY_cong:
  "Bind_Table s1 = Bind_Table s2 \<Longrightarrow> Bind_Table_len s1 = Bind_Table_len s2 \<Longrightarrow>
   ASSERT_BIND_TABLE_EMPTY s1 = ASSERT_BIND_TABLE_EMPTY s2"
  by (simp add: ASSERT_BIND_TABLE_EMPTY_def)

lemma Resolve_Context_asserts:
  assumes "Resolve_Context s target source ow all expand0 = Inr s'"
  shows "ASSERT_BIND_TABLE_EMPTY s = Inr () \<and> ASSERT_BIND_TABLE_EMPTY s' = Inr ()"
  using assms
  unfolding Resolve_Context_def Let_def
  by (auto split: if_splits prod.splits elim!: bind_e_InrE
      simp add: ASSERT_BIND_TABLE_EMPTY_cong[of "s\<lparr>heap := h, Bind_Table := b, BUF_COLLECT := []\<rparr>"
        "s\<lparr>heap := h, Bind_Table := b\<rparr>" for h b])

text \<open>Claim C6 (as amended). For a run of \<open>Resolve_Context\<close> that returns, on a target and a
  source that are different contexts whose keys have distinct canons (such a run found the
  binding table empty and leaves it empty):

  when \<open>all\<close> is false, every slot of the target that held a value other than void still
  holds it;

  a slot \<open>j\<close> from the start of the loop on, whose key is not locked and whose canon is
  selected by \<open>only_words\<close>, takes the value the source holds for that canon (in its slot
  \<open>m\<close>) when \<open>all\<close> is true or the slot held void;

  a slot whose key is locked (\<open>TYPESET_FLAG_LOCKED\<close>) holds the value it held, whatever \<open>all\<close>
  says.\<close>

theorem Resolve_Context_copy_rule:
  assumes "Resolve_Context s target source ow all expand0 = Inr s'"
    and "get_varlist (heap s) target = Inr tv" and "vl_keylist tv = Some tk"
    and "get_keylist (heap s) tk = Inr tkl"
    and "get_varlist (heap s) source = Inr sv" and "vl_keylist sv = Some sk"
    and "get_keylist (heap s) sk = Inr skl"
    and "source \<noteq> target"
    and "distinct (map (SYMBOL_TO_CANON s) (map k_sym (drop (resolve_start ow) (kl_keys tkl))))"
    and "distinct (map (SYMBOL_TO_CANON s) (map k_sym (tl (kl_keys skl))))"
  shows "(\<not> all \<longrightarrow> keeps_set_vars (heap s') target (vl_vars tv)) \<and>
         (\<forall>j m. resolve_start ow \<le> j \<and> j < length (kl_keys tkl) \<and>
                \<not> k_locked (kl_keys tkl ! j) \<and>
                resolve_selects (SYMBOL_TO_CANON s) ow (SYMBOL_TO_CANON s (k_sym (kl_keys tkl ! j))) \<and>
                (all \<or> vl_vars tv ! j = Void) \<and>
                0 < m \<and> m < length (kl_keys skl) \<and>
                SYMBOL_TO_CANON s (k_sym (kl_keys skl ! m))
                  = SYMBOL_TO_CANON s (k_sym (kl_keys tkl ! j)) \<longrightarrow>
                (\<exists>tv'. get_varlist (heap s') target = Inr tv' \<and> j < length (vl_vars tv') \<and>
                   vl_vars tv' ! j = vl_vars sv ! m)) \<and>
         (\<forall>p. p < length (kl_keys tkl) \<and> p < length (vl_vars tv) \<and>
                k_locked (kl_keys tkl ! p) \<longrightarrow>
                (\<exists>tv'. get_varlist (heap s') target = Inr tv' \<and> p < length (vl_vars tv') \<and>
                   vl_vars tv' ! p = vl_vars tv ! p)) \<and>
         ASSERT_BIND_TABLE_EMPTY s = Inr () \<and> ASSERT_BIND_TABLE_EMPTY s' = Inr ()"
proof (intro conjI impI allI)
  assume "\<not> all"
  with assms(1) have "Resolve_Context s target source ow False expand0 = Inr s'" by simp
  from Resolve_Context_keeps[OF this assms(2)]
  show "keeps_set_vars (heap s') target (vl_vars tv)" .
next
  fix j m
  assume a: "resolve_start ow \<le> j \<and> j < length (kl_keys tkl) \<and>
                \<not> k_locked (kl_keys tkl ! j) \<and>
                resolve_selects (SYMBOL_TO_CANON s) ow (SYMBOL_TO_CANON s (k_sym (kl_keys tkl ! j))) \<and>
                (all \<or> vl_vars tv ! j = Void) \<and>
                0 < m \<and> m < length (kl_keys skl) \<and>
                SYMBOL_TO_CANON s (k_sym (kl_keys skl ! m))
                  = SYMBOL_TO_CANON s (k_sym (kl_keys tkl ! j))"
  then have 1: "resolve_start ow \<le> j" and 2: "j < length (kl_keys tkl)"
    and 3: "\<not> k_locked (kl_keys tkl ! j)"
    and 4: "resolve_selects (SYMBOL_TO_CANON s) ow (SYMBOL_TO_CANON s (k_sym (kl_keys tkl ! j)))"
    and 5: "all \<or> vl_vars tv ! j = Void" and 6: "0 < m" and 7: "m < length (kl_keys skl)"
    and 8: "SYMBOL_TO_CANON s (k_sym (kl_keys skl ! m))
                  = SYMBOL_TO_CANON s (k_sym (kl_keys tkl ! j))"
    by simp_all
  from Resolve_Context_copies[OF assms 1 2 3 4 6 7 8 5]
  show "\<exists>tv'. get_varlist (heap s') target = Inr tv' \<and> j < length (vl_vars tv') \<and>
                   vl_vars tv' ! j = vl_vars sv ! m" .
next
  fix p
  assume "p < length (kl_keys tkl) \<and> p < length (vl_vars tv) \<and> k_locked (kl_keys tkl ! p)"
  then have 1: "p < length (kl_keys tkl)" and 2: "p < length (vl_vars tv)"
    and 3: "k_locked (kl_keys tkl ! p)"
    by simp_all
  from Resolve_Context_locked[OF assms(1-8) 1 2 3]
  show "\<exists>tv'. get_varlist (heap s') target = Inr tv' \<and> p < length (vl_vars tv') \<and>
                   vl_vars tv' ! p = vl_vars tv ! p" .
next
  from Resolve_Context_asserts[OF assms(1)]
  show "ASSERT_BIND_TABLE_EMPTY s = Inr ()" and "ASSERT_BIND_TABLE_EMPTY s' = Inr ()"
    by simp_all
qed

theorem Resolve_Context_copy_rule_witness:
  "(\<exists>s'. Resolve_Context ex_resolve_state 1 3 OW_Void False False = Inr s' \<and>
      keeps_set_vars (heap s') 1 [AnyContext REB_OBJECT 1 None, Integer 1, Void, Integer 5] \<and>
      (\<exists>tv'. get_varlist (heap s') 1 = Inr tv' \<and> 2 < length (vl_vars tv') \<and>
         vl_vars tv' ! 2 = Integer 8)) \<and>
   (\<exists>s'. Resolve_Context ex_resolve_state 1 3 OW_Void True False = Inr s' \<and>
      (\<exists>tv'. get_varlist (heap s') 1 = Inr tv' \<and> 1 < length (vl_vars tv') \<and>
         vl_vars tv' ! 1 = Integer 7) \<and>
      (\<exists>tv'. get_varlist (heap s') 1 = Inr tv' \<and> 3 < length (vl_vars tv') \<and>
         vl_vars tv' ! 3 = Integer 5))"
proof -
  let ?tkl = "\<lparr>kl_keys = [ex_rootkey, Val_Init_Typeset ALL_64 10, Val_Init_Typeset ALL_64 11,
                      (Val_Init_Typeset ALL_64 12)\<lparr>k_locked := True\<rparr>],
          kl_shared = False, kl_managed = True, kl_meta = None\<rparr>"
  let ?tv = "\<lparr>vl_vars = [AnyContext REB_OBJECT 1 None, Integer 1, Void, Integer 5],
          vl_keylist = Some 0, vl_context = True, vl_locked = False\<rparr>"
  let ?skl = "\<lparr>kl_keys = [ex_rootkey, Val_Init_Typeset ALL_64 10, Val_Init_Typeset ALL_64 11,
                      Val_Init_Typeset ALL_64 12],
          kl_shared = False, kl_managed = True, kl_meta = None\<rparr>"
  let ?sv = "\<lparr>vl_vars = [AnyContext REB_OBJECT 3 None, Integer 7, Integer 8, Integer 9],
          vl_keylist = Some 2, vl_context = True, vl_locked = False\<rparr>"
  have tv: "get_varlist (heap ex_resolve_state) 1 = Inr ?tv"
    and tkl: "get_keylist (heap ex_resolve_state) 0 = Inr ?tkl"
    and sv: "get_varlist (heap ex_resolve_state) 3 = Inr ?sv"
    and skl: "get_keylist (heap ex_resolve_state) 2 = Inr ?skl"
    by (simp_all add: ex_resolve_state_def ex_resolve_heap_def get_varlist_def get_keylist_def)
  have dt: "distinct (map (SYMBOL_TO_CANON ex_resolve_state)
      (map k_sym (drop (resolve_start OW_Void) (kl_keys ?tkl))))"
    and ds: "distinct (map (SYMBOL_TO_CANON ex_resolve_state) (map k_sym (tl (kl_keys ?skl))))"
    by (simp_all add: ex_resolve_state_def resolve_start_def start_index_def
        Val_Init_Typeset_def)
  have k1: "vl_keylist ?tv = Some 0" and k2: "vl_keylist ?sv = Some 2" and ne: "(3::nat) \<noteq> 1"
    by simp_all
  have "resolved_vars ex_resolve_state 1 3 OW_Void False False
      = Inr [Integer 1, Integer 8, Integer 5]"
    by code_simp
  then obtain s1 where run1: "Resolve_Context ex_resolve_state 1 3 OW_Void False False = Inr s1"
    unfolding resolved_vars_def by (rule bind_e_InrE)
  note rule1 = Resolve_Context_copy_rule[OF run1 tv k1 tkl sv k2 skl ne dt ds]
  from rule1[THEN conjunct1]
  have keep: "keeps_set_vars (heap s1) 1 [AnyContext REB_OBJECT 1 None, Integer 1, Void, Integer 5]"
    by simp
  from rule1[THEN conjunct2, THEN conjunct1, rule_format, of 2 2]
  have fill: "\<exists>tv'. get_varlist (heap s1) 1 = Inr tv' \<and> 2 < length (vl_vars tv') \<and>
                   vl_vars tv' ! 2 = Integer 8"
    by (simp add: resolve_start_def start_index_def resolve_selects_def Val_Init_Typeset_def
        ex_resolve_state_def)
  have "resolved_vars ex_resolve_state 1 3 OW_Void True False
      = Inr [Integer 7, Integer 8, Integer 5]"
    by code_simp
  then obtain s2 where run2: "Resolve_Context ex_resolve_state 1 3 OW_Void True False = Inr s2"
    unfolding resolved_vars_def by (rule bind_e_InrE)
  note rule2 = Resolve_Context_copy_rule[OF run2 tv k1 tkl sv k2 skl ne dt ds]
  from rule2[THEN conjunct2, THEN conjunct1, rule_format, of 1 1]
  have over: "\<exists>tv'. get_varlist (heap s2) 1 = Inr tv' \<and> 1 < length (vl_vars tv') \<and>
                   vl_vars tv' ! 1 = Integer 7"
    by (simp add: resolve_start_def start_index_def resolve_selects_def Val_Init_Typeset_def
        ex_resolve_state_def)
  from rule2[THEN conjunct2, THEN conjunct2, THEN conjunct1, rule_format, of 3]
  have lock: "\<exists>tv'. get_varlist (heap s2) 1 = Inr tv' \<and> 3 < length (vl_vars tv') \<and>
                   vl_vars tv' ! 3 = Integer 5"
    by (simp add: Val_Init_Typeset_def)
  from run1 keep fill run2 over lock show ?thesis by blast
qed

theorem Resolve_Context_always_overwrites_counterexample:
  "resolved_vars ex_resolve_state 1 3 OW_Void True False = Inr [Integer 7, Integer 8, Integer 5] \<and>
   CTX_VARS_HEAD (heap ex_resolve_state) 1 = Inr [Integer 1, Void, Integer 5] \<and>
   CTX_VARS_HEAD (heap ex_resolve_state) 3 = Inr [Integer 7, Integer 8, Integer 9] \<and>
   resolve_selects (SYMBOL_TO_CANON ex_resolve_state) OW_Void 12"
  by code_simp

subsection \<open>Merging two contexts\<close>

text \<open>The binding table during a collection pass: \<open>indexed\<close> says that the keys collected
  after the root key have distinct canons and that the table holds, for the canon of each,
  its index in the buffer, and zero for every other canon.\<close>

lemma indexed_start: "indexed cn [root] (\<lambda>_. 0)"
  by (simp add: indexed_def)

lemma indexed_bound:
  assumes "indexed cn buf b" and "c \<in> set (map cn (map k_sym (tl buf)))"
  shows "0 < b c \<and> b c < int (length buf) \<and> cn (k_sym (buf ! nat (b c))) = c"
proof -
  from assms(2) obtain p where p: "p < length (tl buf)" "c = cn (k_sym (tl buf ! p))"
    by (auto simp add: in_set_conv_nth)
  then have "Suc p < length buf" and "tl buf ! p = buf ! Suc p"
    by (simp_all add: nth_tl)
  with assms(1) p have bc: "b c = int (Suc p)"
    by (simp add: indexed_def)
  then have "nat (b c) = Suc p" by (simp only: nat_int)
  with bc \<open>Suc p < length buf\<close> \<open>tl buf ! p = buf ! Suc p\<close> p show ?thesis by simp
qed

lemma indexed_zero:
  assumes "indexed cn buf b"
  shows "b c = 0 \<longleftrightarrow> c \<notin> set (map cn (map k_sym (tl buf)))"
proof
  assume z: "b c = 0"
  show "c \<notin> set (map cn (map k_sym (tl buf)))"
  proof
    assume "c \<in> set (map cn (map k_sym (tl buf)))"
    from indexed_bound[OF assms this] z show False by simp
  qed
next
  assume n: "c \<notin> set (map cn (map k_sym (tl buf)))"
  from assms have "b c \<noteq> 0 \<longrightarrow> c \<in> set (map cn (map k_sym (tl buf)))"
    unfolding indexed_def by blast
  with n show "b c = 0" by blast
qed

lemma indexed_snoc:
  assumes "indexed cn buf b" and "b (cn (k_sym key)) = 0"
  shows "indexed cn (buf @ [key]) (b(cn (k_sym key) := int (length buf)))"
proof -
  let ?c = "cn (k_sym key)"
  from assms(1) have ne: "buf \<noteq> []"
    by (simp add: indexed_def)
  from indexed_zero[OF assms(1), of ?c] assms(2)
  have new: "?c \<notin> set (map cn (map k_sym (tl buf)))"
    by blast
  have at: "\<And>i. 0 < i \<Longrightarrow> i < length buf \<Longrightarrow> cn (k_sym (buf ! i)) \<noteq> ?c"
  proof
    fix i assume i: "0 < i" "i < length buf" and eq: "cn (k_sym (buf ! i)) = ?c"
    from i assms(1) have "b (cn (k_sym (buf ! i))) = int i" by (simp add: indexed_def)
    with eq assms(2) i show False by simp
  qed
  show ?thesis
    unfolding indexed_def
  proof (intro conjI allI impI)
    show "buf @ [key] \<noteq> []" by simp
    show "distinct (map cn (map k_sym (tl (buf @ [key]))))"
      using assms(1) ne new by (simp add: indexed_def)
    fix c assume "(b(?c := int (length buf))) c \<noteq> 0"
    then show "c \<in> set (map cn (map k_sym (tl (buf @ [key]))))"
      using assms(1) ne by (auto simp add: indexed_def split: if_splits)
  next
    fix i assume "0 < i \<and> i < length (buf @ [key])"
    then have i: "0 < i" "i < length buf \<or> i = length buf" by auto
    from i(2) show "(b(?c := int (length buf))) (cn (k_sym ((buf @ [key]) ! i))) = int i"
    proof
      assume l: "i < length buf"
      with at[OF i(1) l] assms(1) i(1) show ?thesis
        by (simp add: nth_append indexed_def)
    next
      assume "i = length buf"
      then show ?thesis by simp
    qed
  qed
qed

lemma bind_keys_indexed:
  assumes "indexed cn buf b" and "distinct (map cn (map k_sym keys))"
    and "\<forall>k \<in> set keys. b (cn (k_sym k)) = 0"
  shows "indexed cn (buf @ keys) (fst (bind_keys cn keys (b, int (length buf))))"
  using assms
proof (induction keys arbitrary: buf b)
  case Nil
  then show ?case by simp
next
  case (Cons key keys)
  let ?b = "b(cn (k_sym key) := int (length buf))"
  from Cons.prems have 1: "indexed cn (buf @ [key]) ?b"
    by (simp add: indexed_snoc)
  from Cons.prems have 2: "distinct (map cn (map k_sym keys))"
    and nin: "cn (k_sym key) \<notin> (\<lambda>x. cn (k_sym x)) ` set keys"
    by simp_all
  from nin have "\<forall>k \<in> set keys. cn (k_sym k) \<noteq> cn (k_sym key)"
    by (auto simp add: image_iff)
  with Cons.prems(3) have 3: "\<forall>k \<in> set keys. ?b (cn (k_sym k)) = 0"
    by simp
  have step: "bind_keys cn (key # keys) (b, int (length buf))
      = bind_keys cn keys (?b, int (length (buf @ [key])))"
    by (simp add: add.commute)
  from Cons.IH[OF 1 2 3] show ?case
    by (simp only: step append_assoc append_Cons append_Nil)
qed

lemma collect_checked_indexed:
  assumes "indexed cn buf b" and "distinct (map cn (map k_sym keys))"
  shows "\<exists>b'. collect_checked cn keys (buf, b, int (length buf))
           = (buf @ filter (\<lambda>k. b (cn (k_sym k)) = 0) keys, b',
              int (length (buf @ filter (\<lambda>k. b (cn (k_sym k)) = 0) keys))) \<and>
           indexed cn (buf @ filter (\<lambda>k. b (cn (k_sym k)) = 0) keys) b'"
  using assms
proof (induction keys arbitrary: buf b)
  case Nil
  then show ?case by simp
next
  case (Cons key keys)
  let ?c = "cn (k_sym key)"
  from Cons.prems have d: "distinct (map cn (map k_sym keys))"
    and nin: "?c \<notin> (\<lambda>x. cn (k_sym x)) ` set keys"
    by simp_all
  from nin have fresh: "\<forall>k \<in> set keys. cn (k_sym k) \<noteq> ?c"
    by (auto simp add: image_iff)
  show ?case
  proof (cases "b ?c = 0")
    case False
    with Cons.IH[OF Cons.prems(1) d] show ?thesis by simp
  next
    case True
    let ?b = "b(?c := int (length buf))"
    from Cons.prems(1) True have 1: "indexed cn (buf @ [key]) ?b"
      by (simp add: indexed_snoc)
    from fresh have same: "filter (\<lambda>k. ?b (cn (k_sym k)) = 0) keys
        = filter (\<lambda>k. b (cn (k_sym k)) = 0) keys"
      by (auto intro: filter_cong)
    from Cons.IH[OF 1 d] obtain b' where
      r: "collect_checked cn keys (buf @ [key], ?b, int (length (buf @ [key])))
          = ((buf @ [key]) @ filter (\<lambda>k. ?b (cn (k_sym k)) = 0) keys, b',
             int (length ((buf @ [key]) @ filter (\<lambda>k. ?b (cn (k_sym k)) = 0) keys)))" and
      ix: "indexed cn ((buf @ [key]) @ filter (\<lambda>k. ?b (cn (k_sym k)) = 0) keys) b'"
      by blast
    have step: "collect_checked cn (key # keys) (buf, b, int (length buf))
        = collect_checked cn keys (buf @ [key], ?b, int (length (buf @ [key])))"
      using True by (simp add: Let_def add.commute)
    have fl: "filter (\<lambda>k. b (cn (k_sym k)) = 0) (key # keys)
        = key # filter (\<lambda>k. b (cn (k_sym k)) = 0) keys"
      using True by simp
    have app: "(buf @ [key]) @ filter (\<lambda>k. ?b (cn (k_sym k)) = 0) keys
        = buf @ filter (\<lambda>k. b (cn (k_sym k)) = 0) (key # keys)"
      unfolding same fl by simp
    from r ix show ?thesis
      unfolding step app by blast
  qed
qed

lemma scatter_result:
  assumes "length vals = length keys"
    and "\<forall>k \<in> set keys. 1 \<le> b (cn (k_sym k)) \<and> b (cn (k_sym k)) < int (length vars)"
    and "distinct (map (\<lambda>k. b (cn (k_sym k))) keys)"
  shows "\<exists>vars'. scatter cn b keys vals vars = Inr vars' \<and> length vars' = length vars \<and>
      (\<forall>i < length vars. (\<forall>k \<in> set keys. nat (b (cn (k_sym k))) \<noteq> i) \<longrightarrow> vars' ! i = vars ! i) \<and>
      (\<forall>j < length keys. vars' ! nat (b (cn (k_sym (keys ! j)))) = vals ! j)"
  using assms
proof (induction keys arbitrary: vals vars)
  case Nil
  then show ?case by simp
next
  case (Cons key keys)
  from Cons.prems(1) obtain v vals' where vals: "vals = v # vals'" and len: "length vals' = length keys"
    by (cases vals) auto
  let ?n = "b (cn (k_sym key))"
  let ?vars = "vars[nat ?n := v]"
  from Cons.prems(2) have n: "1 \<le> ?n" "?n < int (length vars)" by simp_all
  then have nn: "nat ?n < length vars" by simp
  from Cons.prems(2) have rng: "\<forall>k \<in> set keys. 1 \<le> b (cn (k_sym k)) \<and>
      b (cn (k_sym k)) < int (length ?vars)"
    by simp
  from Cons.prems(3) have dist: "distinct (map (\<lambda>k. b (cn (k_sym k))) keys)"
    and nin: "?n \<notin> (\<lambda>k. b (cn (k_sym k))) ` set keys"
    by simp_all
  have other: "\<forall>k \<in> set keys. nat (b (cn (k_sym k))) \<noteq> nat ?n"
  proof
    fix k assume k: "k \<in> set keys"
    with nin have "b (cn (k_sym k)) \<noteq> ?n" by (auto simp add: image_iff)
    moreover from k Cons.prems(2) have "1 \<le> b (cn (k_sym k))" by simp
    ultimately show "nat (b (cn (k_sym k))) \<noteq> nat ?n" using n(1) by simp
  qed
  from Cons.IH[OF len rng dist] obtain vars' where
    r: "scatter cn b keys vals' ?vars = Inr vars'" and l: "length vars' = length vars" and
    keep: "\<forall>i < length vars. (\<forall>k \<in> set keys. nat (b (cn (k_sym k))) \<noteq> i) \<longrightarrow> vars' ! i = ?vars ! i" and
    put: "\<forall>j < length keys. vars' ! nat (b (cn (k_sym (keys ! j)))) = vals' ! j"
    by auto
  have run: "scatter cn b (key # keys) vals vars = Inr vars'"
    using r n vals by (simp add: Let_def)
  have k2: "\<forall>i < length vars. (\<forall>k \<in> set (key # keys). nat (b (cn (k_sym k))) \<noteq> i) \<longrightarrow>
      vars' ! i = vars ! i"
    using keep by auto
  from keep nn other have here: "vars' ! nat ?n = v" by simp
  have p2: "\<forall>j < length (key # keys). vars' ! nat (b (cn (k_sym ((key # keys) ! j)))) = vals ! j"
  proof (intro allI impI)
    fix j assume "j < length (key # keys)"
    then show "vars' ! nat (b (cn (k_sym ((key # keys) ! j)))) = vals ! j"
      using here put vals by (cases j) simp_all
  qed
  from run l k2 p2 show ?case by blast
qed

lemma find_word_found:
  assumes "cn w \<in> set (map cn (map k_sym keys))"
  shows "\<exists>p < length keys. find_word cn w True n keys = n + p \<and> cn (k_sym (keys ! p)) = cn w"
  using assms
proof (induction keys arbitrary: n)
  case Nil
  then show ?case by simp
next
  case (Cons key keys)
  show ?case
  proof (cases "cn (k_sym key) = cn w")
    case True
    then have "find_word cn w True n (key # keys) = n + 0" by auto
    with True show ?thesis by (intro exI[of _ 0]) simp
  next
    case False
    with Cons.prems have "cn w \<in> set (map cn (map k_sym keys))" by auto
    from Cons.IH[OF this, of "Suc n"] obtain p where
      p: "p < length keys" "find_word cn w True (Suc n) keys = Suc n + p"
        "cn (k_sym (keys ! p)) = cn w"
      by blast
    from False have "find_word cn w True n (key # keys) = find_word cn w True (Suc n) keys"
      by auto
    with p show ?thesis by (intro exI[of _ "Suc p"]) simp
  qed
qed

lemma find_word_none:
  "cn w \<notin> set (map cn (map k_sym keys)) \<Longrightarrow> find_word cn w always n keys = 0"
  by (induction keys arbitrary: n) auto

lemma merged_keys_canons:
  "set (map cn (map k_sym (merged_keys cn keys1 keys2)))
     = set (map cn (map k_sym keys1)) \<union> set (map cn (map k_sym keys2))"
  by (auto simp add: merged_keys_def)

lemma merged_keys_distinct:
  assumes "distinct (map cn (map k_sym keys1))" and "distinct (map cn (map k_sym keys2))"
  shows "distinct (map cn (map k_sym (merged_keys cn keys1 keys2)))"
proof -
  have "distinct (map (\<lambda>k. cn (k_sym k)) (filter (\<lambda>k. cn (k_sym k) \<notin> set (map cn (map k_sym keys1))) keys2))"
    using assms(2) by (simp add: distinct_map_filter comp_def)
  with assms(1) show ?thesis
    by (fastforce simp add: merged_keys_def comp_def image_iff)
qed

lemma merged_keys_collected:
  assumes "distinct (map cn (map k_sym keys1))" and "distinct (map cn (map k_sym keys2))"
  shows "\<exists>b3 n3. collect_checked cn keys2
             (root # keys1, fst (bind_keys cn keys1 (\<lambda>_. 0, 1)), int (length (root # keys1)))
           = (root # merged_keys cn keys1 keys2, b3, n3) \<and>
           indexed cn (root # merged_keys cn keys1 keys2) b3"
proof -
  let ?b2 = "fst (bind_keys cn keys1 (\<lambda>_. 0, 1))"
  from bind_keys_indexed[OF indexed_start assms(1), of root]
  have ix: "indexed cn (root # keys1) ?b2" by simp
  from indexed_zero[OF ix]
  have "filter (\<lambda>k. ?b2 (cn (k_sym k)) = 0) keys2
      = filter (\<lambda>k. cn (k_sym k) \<notin> set (map cn (map k_sym keys1))) keys2"
    by simp
  then have eq: "(root # keys1) @ filter (\<lambda>k. ?b2 (cn (k_sym k)) = 0) keys2
      = root # merged_keys cn keys1 keys2"
    by (simp add: merged_keys_def)
  from collect_checked_indexed[OF ix assms(2)] show ?thesis
    unfolding eq by blast
qed

lemma scatter_merged:
  assumes ix: "indexed cn (root # merged_keys cn keys1 keys2) b3"
    and d1: "distinct (map cn (map k_sym keys1))" and d2: "distinct (map cn (map k_sym keys2))"
    and l1: "length vars1 = length keys1" and l2: "length vars2 = length keys2"
  shows "\<exists>vars'. scatter cn b3 keys2 vars2
             (self # vars1 @ replicate (length (merged_keys cn keys1 keys2) - length keys1) Trash)
           = Inr vars' \<and>
           length vars' = Suc (length (merged_keys cn keys1 keys2)) \<and> vars' ! 0 = self \<and>
           (\<forall>i < length (merged_keys cn keys1 keys2).
              vars' ! Suc i
                = merged_val cn keys1 vars1 keys2 vars2 (cn (k_sym (merged_keys cn keys1 keys2 ! i))))"
proof -
  let ?mk = "merged_keys cn keys1 keys2"
  let ?buf = "root # ?mk"
  let ?init = "self # vars1 @ replicate (length ?mk - length keys1) Trash"
  let ?c1 = "map cn (map k_sym keys1)"
  let ?c2 = "map cn (map k_sym keys2)"
  have len_mk: "length keys1 \<le> length ?mk" by (simp add: merged_keys_def)
  with l1 have len_init: "length ?init = Suc (length ?mk)" by simp
  have in_mk: "\<And>c. c \<in> set ?c2 \<Longrightarrow> c \<in> set (map cn (map k_sym (tl ?buf)))"
    using merged_keys_canons[of cn keys1 keys2] by simp
  have bound: "\<And>c. c \<in> set ?c2 \<Longrightarrow>
      0 < b3 c \<and> b3 c < int (length ?buf) \<and> cn (k_sym (?buf ! nat (b3 c))) = c"
    using indexed_bound[OF ix in_mk] .
  have rng: "\<forall>k \<in> set keys2. 1 \<le> b3 (cn (k_sym k)) \<and> b3 (cn (k_sym k)) < int (length ?init)"
  proof
    fix k assume "k \<in> set keys2"
    then have "cn (k_sym k) \<in> set ?c2" by simp
    from bound[OF this] len_init show "1 \<le> b3 (cn (k_sym k)) \<and> b3 (cn (k_sym k)) < int (length ?init)"
      by simp
  qed
  have inj: "inj_on b3 (set ?c2)"
  proof (rule inj_onI)
    fix x y assume x: "x \<in> set ?c2" and y: "y \<in> set ?c2" and eq: "b3 x = b3 y"
    have "x = cn (k_sym (?buf ! nat (b3 x)))"
      by (rule sym) (rule bound[OF x, THEN conjunct2, THEN conjunct2])
    also have "\<dots> = cn (k_sym (?buf ! nat (b3 y)))" by (simp only: eq)
    also have "\<dots> = y"
      by (rule bound[OF y, THEN conjunct2, THEN conjunct2])
    finally show "x = y" .
  qed
  from d2 have dk: "distinct keys2" and i1: "inj_on (\<lambda>k. cn (k_sym k)) (set keys2)"
    by (simp_all add: distinct_map comp_def)
  from inj have i2: "inj_on b3 ((\<lambda>k. cn (k_sym k)) ` set keys2)"
    by simp
  from comp_inj_on[OF i1 i2] have "inj_on (\<lambda>k. b3 (cn (k_sym k))) (set keys2)"
    by (simp add: comp_def)
  with dk have dist: "distinct (map (\<lambda>k. b3 (cn (k_sym k))) keys2)"
    by (simp add: distinct_map)
  from scatter_result[where cn = cn and b = b3 and keys = keys2 and vals = vars2
      and vars = ?init, OF l2 rng dist] obtain vars' where
    run: "scatter cn b3 keys2 vars2 ?init = Inr vars'" and len: "length vars' = length ?init" and
    keep: "\<forall>i < length ?init. (\<forall>k \<in> set keys2. nat (b3 (cn (k_sym k))) \<noteq> i) \<longrightarrow>
             vars' ! i = ?init ! i" and
    put: "\<forall>j < length keys2. vars' ! nat (b3 (cn (k_sym (keys2 ! j)))) = vars2 ! j"
    by blast
  have "\<forall>k \<in> set keys2. nat (b3 (cn (k_sym k))) \<noteq> 0"
    using rng by auto
  with keep have head: "vars' ! 0 = self" by simp
  have slots: "\<forall>i < length ?mk. vars' ! Suc i = merged_val cn keys1 vars1 keys2 vars2 (cn (k_sym (?mk ! i)))"
  proof (intro allI impI)
    fix i assume i: "i < length ?mk"
    let ?c = "cn (k_sym (?mk ! i))"
    from ix have "\<forall>p. 0 < p \<and> p < length ?buf \<longrightarrow> b3 (cn (k_sym (?buf ! p))) = int p"
      unfolding indexed_def by blast
    from this[rule_format, of "Suc i"] i have at: "b3 ?c = int (Suc i)"
      by simp
    show "vars' ! Suc i = merged_val cn keys1 vars1 keys2 vars2 ?c"
    proof (cases "?c \<in> set ?c2")
      case True
      then obtain j where j: "j < length keys2" "?c2 ! j = ?c"
        by (auto simp add: in_set_conv_nth)
      then have cj: "cn (k_sym (keys2 ! j)) = ?c" by simp
      from at have "nat (b3 ?c) = Suc i" by (simp only: nat_int)
      with put j(1) cj have "vars' ! Suc i = vars2 ! j"
        by auto
      moreover from map_of_zip_nth[of ?c2 vars2 j] l2 d2 j
      have "map_of (zip ?c2 vars2) ?c = Some (vars2 ! j)" by simp
      ultimately show ?thesis by (simp add: merged_val_def)
    next
      case False
      with l2 have none: "map_of (zip ?c2 vars2) ?c = None"
        by (simp add: map_of_zip_is_None)
      have i1: "i < length keys1"
      proof (rule ccontr)
        assume "\<not> i < length keys1"
        with i have "?mk ! i = filter (\<lambda>k. cn (k_sym k) \<notin> set ?c1) keys2 ! (i - length keys1)"
          and "i - length keys1 < length (filter (\<lambda>k. cn (k_sym k) \<notin> set ?c1) keys2)"
          by (simp_all add: merged_keys_def nth_append)
        with nth_mem[of "i - length keys1" "filter (\<lambda>k. cn (k_sym k) \<notin> set ?c1) keys2"]
        have "?mk ! i \<in> set (filter (\<lambda>k. cn (k_sym k) \<notin> set ?c1) keys2)"
          by (simp only:)
        then have "?mk ! i \<in> set keys2" by (simp only: set_filter) blast
        then have "?c \<in> set ?c2" by simp
        with False show False ..
      qed
      then have ki: "?mk ! i = keys1 ! i" by (simp add: merged_keys_def nth_append)
      from map_of_zip_nth[of ?c1 vars1 i] l1 d1 i1 ki
      have one: "map_of (zip ?c1 vars1) ?c = Some (vars1 ! i)" by simp
      have "\<forall>k \<in> set keys2. nat (b3 (cn (k_sym k))) \<noteq> Suc i"
      proof
        fix k assume k: "k \<in> set keys2"
        show "nat (b3 (cn (k_sym k))) \<noteq> Suc i"
        proof
          assume e: "nat (b3 (cn (k_sym k))) = Suc i"
          from k have m: "cn (k_sym k) \<in> set ?c2" by simp
          from bound[OF m] e have "cn (k_sym k) = ?c" by simp
          with m have "?c \<in> set ?c2" by (simp only:)
          with False show False ..
        qed
      qed
      with keep i len_init have "vars' ! Suc i = ?init ! Suc i" by simp
      also have "\<dots> = vars1 ! i" using i1 l1 by (simp add: nth_append)
      finally show ?thesis using none one by (simp add: merged_val_def)
    qed
  qed
  from run len len_init head slots show ?thesis by simp
qed

lemma merged_final_vars:
  assumes len: "length vars' = Suc (length mk)" and head: "vars' ! 0 = self"
    and slots: "\<forall>i < length mk. vars' ! Suc i = merged_val cn keys1 vars1 keys2 vars2 (cn (k_sym (mk ! i)))"
    and p: "p < length mk" "cn (k_sym (mk ! p)) = cn SYM_SELF"
    and d: "distinct (map cn (map k_sym mk))"
  shows "tl ((hd vars' # map (clone_val cl) (tl vars'))
               [Suc p := hd (hd vars' # map (clone_val cl) (tl vars'))])
         = map (merged_var cn cl keys1 vars1 keys2 vars2 self) mk"
proof (rule nth_equalityI)
  show "length (tl ((hd vars' # map (clone_val cl) (tl vars'))
               [Suc p := hd (hd vars' # map (clone_val cl) (tl vars'))]))
      = length (map (merged_var cn cl keys1 vars1 keys2 vars2 self) mk)"
    using len by simp
next
  fix i
  assume "i < length (tl ((hd vars' # map (clone_val cl) (tl vars'))
               [Suc p := hd (hd vars' # map (clone_val cl) (tl vars'))]))"
  with len have i: "i < length mk" by simp
  from len have ne: "vars' \<noteq> []" by auto
  with head have hd: "hd vars' = self" by (simp add: hd_conv_nth)
  have self_iff: "cn (k_sym (mk ! i)) = cn SYM_SELF \<longleftrightarrow> i = p"
  proof
    assume a: "cn (k_sym (mk ! i)) = cn SYM_SELF"
    from nth_eq_iff_index_eq[OF d, of i p] i p a show "i = p" by simp
  next
    assume "i = p" with p(2) show "cn (k_sym (mk ! i)) = cn SYM_SELF" by simp
  qed
  show "tl ((hd vars' # map (clone_val cl) (tl vars'))
               [Suc p := hd (hd vars' # map (clone_val cl) (tl vars'))]) ! i
      = map (merged_var cn cl keys1 vars1 keys2 vars2 self) mk ! i"
  proof (cases "i = p")
    case True
    with i len hd self_iff show ?thesis
      by (simp add: nth_tl merged_var_def)
  next
    case False
    with self_iff have ns: "cn (k_sym (mk ! i)) \<noteq> cn SYM_SELF" by simp
    from i len have "tl vars' ! i = vars' ! Suc i" by (simp add: nth_tl)
    with slots i have "tl vars' ! i = merged_val cn keys1 vars1 keys2 vars2 (cn (k_sym (mk ! i)))"
      by simp
    with False i len ns show ?thesis
      by (simp add: nth_tl merged_var_def)
  qed
qed

lemma count_none:
  "y \<notin> set (map f (map g xs)) \<Longrightarrow> length (filter (\<lambda>x. f (g x) = y) xs) = 0"
  by (induction xs) auto

lemma distinct_count_one:
  assumes "distinct (map f xs)" and "y \<in> set (map f xs)"
  shows "length (filter (\<lambda>x. f x = y) xs) = 1"
  using assms
proof (induction xs)
  case Nil
  then show ?case by simp
next
  case (Cons x xs)
  show ?case
  proof (cases "f x = y")
    case True
    with Cons.prems(1) have "y \<notin> set (map f xs)" by auto
    then have "filter (\<lambda>x. f x = y) xs = []"
      by (auto simp add: filter_empty_conv)
    with True show ?thesis by simp
  next
    case False
    with Cons show ?thesis by auto
  qed
qed

text \<open>Claim C5. Let \<open>parent1\<close> and \<open>parent2\<close> be contexts of the same type whose keys
  (after the root key) have distinct canons and whose variables match their keys, and let no
  collection be under way. \<open>Merge_Contexts_Selfish\<close> puts no \<open>self\<close> key of its own into the
  buffer (\<open>Collect_Keys_Start\<close> does not read the flag \<open>COLLECT_ENSURE_SELF\<close> it is given), so
  there are two cases.

  If one of the parents has a key \<open>self\<close>, it returns a new context. Its keys are the root
  key, the keys of \<open>parent1\<close> in their order, then the keys of \<open>parent2\<close> whose canon
  \<open>parent1\<close> lacks, in their order (\<open>merged_keys\<close>); exactly one of them is \<open>self\<close>. The
  variable of \<open>self\<close> is the new context; the variable of any other key is the deep copy of
  the value \<open>parent2\<close> holds for its canon, or of the value of \<open>parent1\<close> when \<open>parent2\<close> has
  no such key (\<open>merged_var\<close>). The binding table and the collect buffer are empty again, and
  the heap that was there is unchanged. For \<open>P1{self, x: 1, y: 2}\<close> and
  \<open>P2{self, y: 3, z: 4}\<close> this gives the keys \<open>self\<close>, \<open>x\<close>, \<open>y\<close>, \<open>z\<close> and the values
  \<open>x = 1\<close>, \<open>y = 3\<close>, \<open>z = 4\<close>.

  If neither parent has a key \<open>self\<close>, as \<open>P1{x: 1, y: 2}\<close> and \<open>P2{y: 3, z: 4}\<close> taken
  literally, the merged keys hold no \<open>self\<close> and the call stops at its own assertion
  \<open>assert(self_index != 0)\<close>.\<close>

theorem Merge_Contexts_Selfish_precedence:
  assumes p1: "get_varlist (heap s) p1 = Inr v1" "vl_keylist v1 = Some k1"
      "get_keylist (heap s) k1 = Inr kl1" "kl_keys kl1 = r1 # keys1"
      "vl_vars v1 = AnyContext t a1 e1 # vars1" "length vars1 = length keys1"
    and p2: "get_varlist (heap s) p2 = Inr v2" "vl_keylist v2 = Some k2"
      "get_keylist (heap s) k2 = Inr kl2" "kl_keys kl2 = r2 # keys2"
      "vl_vars v2 = AnyContext t a2 e2 # vars2" "length vars2 = length keys2"
    and idle: "BUF_COLLECT s = []" "Bind_Table s = (\<lambda>_. 0)"
    and d1: "distinct (map (SYMBOL_TO_CANON s) (map k_sym keys1))"
    and d2: "distinct (map (SYMBOL_TO_CANON s) (map k_sym keys2))"
  shows "(SYMBOL_TO_CANON s SYM_SELF \<in> set (map (SYMBOL_TO_CANON s) (map k_sym (keys1 @ keys2))) \<longrightarrow>
     (\<exists>s'. Merge_Contexts_Selfish cl s p1 p2 = Inr (s', Suc (length (heap s))) \<and>
     ctx_keys (heap s') (Suc (length (heap s)))
       = Inr (Val_Init_Typeset ALL_64 SYM_0 # merged_keys (SYMBOL_TO_CANON s) keys1 keys2) \<and>
     CTX_VARS_HEAD (heap s') (Suc (length (heap s)))
       = Inr (map (merged_var (SYMBOL_TO_CANON s) cl keys1 vars1 keys2 vars2
                     (AnyContext t (Suc (length (heap s))) None))
                (merged_keys (SYMBOL_TO_CANON s) keys1 keys2)) \<and>
     length (filter (\<lambda>k. SYMBOL_TO_CANON s (k_sym k) = SYMBOL_TO_CANON s SYM_SELF)
               (merged_keys (SYMBOL_TO_CANON s) keys1 keys2)) = 1 \<and>
     Bind_Table s' = (\<lambda>_. 0) \<and> BUF_COLLECT s' = [] \<and>
     take (length (heap s)) (heap s') = heap s)) \<and>
    (SYMBOL_TO_CANON s SYM_SELF \<notin> set (map (SYMBOL_TO_CANON s) (map k_sym (keys1 @ keys2))) \<longrightarrow>
     Merge_Contexts_Selfish cl s p1 p2 = Inl Assert_Failed \<and>
     length (filter (\<lambda>k. SYMBOL_TO_CANON s (k_sym k) = SYMBOL_TO_CANON s SYM_SELF)
               (merged_keys (SYMBOL_TO_CANON s) keys1 keys2)) = 0)"
proof -
  let ?h = "heap s"
  let ?cn = "SYMBOL_TO_CANON s"
  let ?root = "Val_Init_Typeset ALL_64 SYM_0"
  let ?mk = "merged_keys ?cn keys1 keys2"
  let ?child = "Suc (length ?h)"
  let ?self = "AnyContext t ?child None"
  let ?b2 = "fst (bind_keys ?cn keys1 (\<lambda>_. 0, 1))"
  from p1 p2 have n: "p1 < length ?h" "?h ! p1 = VL v1" "k1 < length ?h" "?h ! k1 = KL kl1"
    "p2 < length ?h" "?h ! p2 = VL v2" "k2 < length ?h" "?h ! k2 = KL kl2"
    by (simp_all add: get_varlist_nth get_keylist_nth)
  have T: "CTX_TYPE ?h p1 = Inr t" "CTX_TYPE ?h p2 = Inr t"
    using p1 p2 by (simp_all add: CTX_TYPE_def)
  let ?s1 = "s\<lparr>BUF_COLLECT := [?root]\<rparr>"
  have S1: "Collect_Keys_Start s = Inr ?s1"
    using idle by (simp add: Collect_Keys_Start_def ASSERT_BIND_TABLE_EMPTY_zero)
  have K: "CTX_KEYS_HEAD ?h p1 = Inr keys1" "CTX_KEYS_HEAD ?h p2 = Inr keys2"
    using p1 p2 by (simp_all add: CTX_KEYS_HEAD_def ctx_keys_def CTX_KEYLIST_def)
  let ?s2 = "?s1\<lparr>BUF_COLLECT := ?root # keys1, Bind_Table := ?b2\<rparr>"
  have C1: "Collect_Context_Keys ?s1 p1 False = Inr ?s2"
    using K idle by (simp add: Collect_Context_Keys_def case_prod_beta)
  from merged_keys_collected[OF d1 d2, of ?root] obtain b3 n3 where
    cc: "collect_checked ?cn keys2 (?root # keys1, ?b2, int (length (?root # keys1)))
           = (?root # ?mk, b3, n3)" and
    ix: "indexed ?cn (?root # ?mk) b3"
    by blast
  let ?s3 = "?s2\<lparr>BUF_COLLECT := ?root # ?mk, Bind_Table := b3\<rparr>"
  have C2: "Collect_Context_Keys ?s2 p2 True = Inr ?s3"
    using K cc by (simp add: Collect_Context_Keys_def)
  let ?kn = "KL \<lparr>kl_keys = ?root # ?mk, kl_shared = False, kl_managed = True, kl_meta = None\<rparr>"
  let ?vn = "VL \<lparr>vl_vars = [?self], vl_keylist = Some (length ?h), vl_context = True,
      vl_locked = False\<rparr>"
  let ?h2 = "(?h @ [?kn]) @ [?vn]"
  have A: "CTX_VARS_HEAD ?h2 p1 = Inr vars1" "CTX_LEN ?h2 p1 = Inr (length keys1)"
    "CTX_KEYS_HEAD ?h2 p2 = Inr keys2" "CTX_VARS_HEAD ?h2 p2 = Inr vars2"
    using n p1 p2
    by (simp_all add: CTX_VARS_HEAD_def CTX_LEN_def CTX_KEYS_HEAD_def ctx_keys_def CTX_KEYLIST_def
        get_varlist_def get_keylist_def nth_append)
  from scatter_merged[OF ix d1 d2 p1(6) p2(6), of ?self] obtain vars' where
    sc: "scatter ?cn b3 keys2 vars2 (?self # vars1 @ replicate (length ?mk - length keys1) Trash)
           = Inr vars'" and
    len: "length vars' = Suc (length ?mk)" and head: "vars' ! 0 = ?self" and
    slots: "\<forall>i < length ?mk. vars' ! Suc i
        = merged_val ?cn keys1 vars1 keys2 vars2 (?cn (k_sym (?mk ! i)))"
    by blast
  have Z: "reset_binds ?s3 (?root # ?mk) = (\<lambda>_. 0)"
  proof
    fix c
    from ix have "b3 c \<noteq> 0 \<longrightarrow> c \<in> set (map ?cn (map k_sym (tl (?root # ?mk))))"
      unfolding indexed_def by blast
    then show "reset_binds ?s3 (?root # ?mk) c = 0"
      by (auto simp add: reset_binds_def fold_reset VAL_TYPESET_CANON_def)
  qed
  let ?s4 = "?s3\<lparr>Bind_Table := \<lambda>_. 0, BUF_COLLECT := []\<rparr>"
  have E: "Collect_Keys_End ?s3 = Inr ?s4"
    using Z by (simp add: Collect_Keys_End_def ASSERT_BIND_TABLE_EMPTY_zero)
  let ?cloned = "hd vars' # map (clone_val cl) (tl vars')"
  show ?thesis
  proof (intro conjI impI)
    assume self: "?cn SYM_SELF \<in> set (map ?cn (map k_sym (keys1 @ keys2)))"
    then have inmk: "?cn SYM_SELF \<in> set (map ?cn (map k_sym ?mk))"
      unfolding merged_keys_canons by simp
    from distinct_count_one[OF merged_keys_distinct[OF d1 d2] inmk]
    have one: "length (filter (\<lambda>k. ?cn (k_sym k) = ?cn SYM_SELF) ?mk) = 1"
      by (simp add: filter_map comp_def)
    from find_word_found[OF inmk, of 1] obtain p where
      p: "p < length ?mk" "find_word ?cn SYM_SELF True 1 ?mk = Suc p"
        "?cn (k_sym (?mk ! p)) = ?cn SYM_SELF"
      by auto
    let ?final = "?cloned[Suc p := hd ?cloned]"
    let ?s' = "?s4\<lparr>heap := ?h2[?child := VL \<lparr>vl_vars = ?final, vl_keylist = Some (length ?h),
        vl_context = True, vl_locked = False\<rparr>]\<rparr>"
    have run: "Merge_Contexts_Selfish cl s p1 p2 = Inr (?s', ?child)"
      using T S1 C1 C2 A sc E p(2) p1(6)
      by (simp add: Merge_Contexts_Selfish_def alloc_def Let_def)
    have keys: "ctx_keys (heap ?s') ?child = Inr (?root # ?mk)"
      by (simp add: ctx_keys_def CTX_KEYLIST_def get_varlist_def get_keylist_def nth_append
          nth_list_update)
    from len have "?final \<noteq> []" by auto
    then have vars: "CTX_VARS_HEAD (heap ?s') ?child = Inr (tl ?final)"
      by (simp add: CTX_VARS_HEAD_def get_varlist_def nth_append nth_list_update)
    have fin: "tl ?final = map (merged_var ?cn cl keys1 vars1 keys2 vars2 ?self) ?mk"
      by (rule merged_final_vars[OF len head slots p(1,3) merged_keys_distinct[OF d1 d2]])
    have rest: "Bind_Table ?s' = (\<lambda>_. 0)" "BUF_COLLECT ?s' = []"
      "take (length ?h) (heap ?s') = ?h"
      by simp_all
    from run keys vars fin one rest
    show "\<exists>s'. Merge_Contexts_Selfish cl s p1 p2 = Inr (s', ?child) \<and>
       ctx_keys (heap s') ?child = Inr (?root # ?mk) \<and>
       CTX_VARS_HEAD (heap s') ?child
         = Inr (map (merged_var ?cn cl keys1 vars1 keys2 vars2 ?self) ?mk) \<and>
       length (filter (\<lambda>k. ?cn (k_sym k) = ?cn SYM_SELF) ?mk) = 1 \<and>
       Bind_Table s' = (\<lambda>_. 0) \<and> BUF_COLLECT s' = [] \<and>
       take (length ?h) (heap s') = ?h"
      by (intro exI[of _ ?s']) (simp only: simp_thms)
  next
    assume "?cn SYM_SELF \<notin> set (map ?cn (map k_sym (keys1 @ keys2)))"
    then have nin: "?cn SYM_SELF \<notin> set (map ?cn (map k_sym ?mk))"
      unfolding merged_keys_canons by simp
    from find_word_none[OF nin] have nf: "find_word ?cn SYM_SELF True 1 ?mk = 0" .
    show "Merge_Contexts_Selfish cl s p1 p2 = Inl Assert_Failed"
      using T S1 C1 C2 A sc E nf p1(6)
      by (simp add: Merge_Contexts_Selfish_def alloc_def Let_def)
    from nin show "length (filter (\<lambda>k. ?cn (k_sym k) = ?cn SYM_SELF) ?mk) = 0"
      by (rule count_none)
  qed
qed

theorem Merge_Contexts_Selfish_precedence_witness:
  "\<exists>s'. Merge_Contexts_Selfish (\<lambda>n. n)
         (ex_merge_state (Integer 1) (Integer 2) (Integer 3) (Integer 4)) 1 3 = Inr (s', 5) \<and>
     ctx_keys (heap s') 5
       = Inr [ex_rootkey, ex_selfkey, Val_Init_Typeset NOT_REB_0 10,
              Val_Init_Typeset NOT_REB_0 11, Val_Init_Typeset NOT_REB_0 12] \<and>
     CTX_VARS_HEAD (heap s') 5
       = Inr [AnyContext REB_OBJECT 5 None, Integer 1, Integer 3, Integer 4]"
proof -
  let ?s = "ex_merge_state (Integer 1) (Integer 2) (Integer 3) (Integer 4)"
  let ?kl1 = "\<lparr>kl_keys = [ex_rootkey, ex_selfkey, Val_Init_Typeset NOT_REB_0 10,
                      Val_Init_Typeset NOT_REB_0 11],
          kl_shared = False, kl_managed = True, kl_meta = None\<rparr>"
  let ?v1 = "\<lparr>vl_vars = [AnyContext REB_OBJECT 1 None, AnyContext REB_OBJECT 1 None,
                      Integer 1, Integer 2],
          vl_keylist = Some 0, vl_context = True, vl_locked = False\<rparr>"
  let ?kl2 = "\<lparr>kl_keys = [ex_rootkey, ex_selfkey, Val_Init_Typeset NOT_REB_0 11,
                      Val_Init_Typeset NOT_REB_0 12],
          kl_shared = False, kl_managed = True, kl_meta = None\<rparr>"
  let ?v2 = "\<lparr>vl_vars = [AnyContext REB_OBJECT 3 None, AnyContext REB_OBJECT 3 None,
                      Integer 3, Integer 4],
          vl_keylist = Some 2, vl_context = True, vl_locked = False\<rparr>"
  have h: "get_varlist (heap ?s) 1 = Inr ?v1" "get_keylist (heap ?s) 0 = Inr ?kl1"
    "get_varlist (heap ?s) 3 = Inr ?v2" "get_keylist (heap ?s) 2 = Inr ?kl2"
    by (simp_all add: ex_merge_state_def ex_parents_def get_varlist_def get_keylist_def)
  have idle: "BUF_COLLECT ?s = []" "Bind_Table ?s = (\<lambda>_. 0)"
    by (simp_all add: ex_merge_state_def)
  have d: "distinct (map (SYMBOL_TO_CANON ?s) (map k_sym
        [ex_selfkey, Val_Init_Typeset NOT_REB_0 10, Val_Init_Typeset NOT_REB_0 11]))"
    "distinct (map (SYMBOL_TO_CANON ?s) (map k_sym
        [ex_selfkey, Val_Init_Typeset NOT_REB_0 11, Val_Init_Typeset NOT_REB_0 12]))"
    "SYMBOL_TO_CANON ?s SYM_SELF \<in> set (map (SYMBOL_TO_CANON ?s) (map k_sym
        ([ex_selfkey, Val_Init_Typeset NOT_REB_0 10, Val_Init_Typeset NOT_REB_0 11]
         @ [ex_selfkey, Val_Init_Typeset NOT_REB_0 11, Val_Init_Typeset NOT_REB_0 12])))"
    by (simp_all add: ex_merge_state_def ex_selfkey_def Val_Init_Typeset_def SYM_SELF_def)
  have len: "length (ex_parents (Integer 1) (Integer 2) (Integer 3) (Integer 4)) = 4"
    by (simp add: ex_parents_def)
  from Merge_Contexts_Selfish_precedence[where cl = "\<lambda>n. n" and s = ?s and ?p1.0 = 1
      and ?p2.0 = 3 and ?v1.0 = ?v1 and ?v2.0 = ?v2 and ?k1.0 = 0 and ?k2.0 = 2
      and ?kl1.0 = ?kl1 and ?kl2.0 = ?kl2 and ?r1.0 = ex_rootkey and ?r2.0 = ex_rootkey
      and t = REB_OBJECT and ?a1.0 = 1 and ?e1.0 = None and ?a2.0 = 3 and ?e2.0 = None
      and ?vars1.0 = "[AnyContext REB_OBJECT 1 None, Integer 1, Integer 2]"
      and ?vars2.0 = "[AnyContext REB_OBJECT 3 None, Integer 3, Integer 4]",
      OF h(1) _ h(2) _ _ _ h(3) _ h(4) _ _ _ idle d(1,2)]
  show ?thesis
    by (simp add: len merged_keys_def merged_var_def merged_val_def clone_val_def
        ex_merge_state_def ex_selfkey_def ex_rootkey_def Val_Init_Typeset_def SYM_SELF_def
        SYM_0_def)
      (elim exE conjE, intro exI conjI, assumption+)
qed

text \<open>The parents of the claim taken literally, with no key \<open>self\<close> in either: the merge
  stops at its assertion.\<close>

theorem Merge_Contexts_Selfish_no_self_counterexample:
  "Merge_Contexts_Selfish (\<lambda>n. n) ex_selfless_state 1 3 = Inl Assert_Failed \<and>
   CTX_KEYS_HEAD (heap ex_selfless_state) 1
     = Inr [Val_Init_Typeset NOT_REB_0 10, Val_Init_Typeset NOT_REB_0 11] \<and>
   CTX_KEYS_HEAD (heap ex_selfless_state) 3
     = Inr [Val_Init_Typeset NOT_REB_0 11, Val_Init_Typeset NOT_REB_0 12] \<and>
   CTX_VARS_HEAD (heap ex_selfless_state) 1 = Inr [Integer 1, Integer 2] \<and>
   CTX_VARS_HEAD (heap ex_selfless_state) 3 = Inr [Integer 3, Integer 4]"
  by (simp add: Merge_Contexts_Selfish_def ex_selfless_state_def ex_selfless_parents_def
      CTX_TYPE_def get_varlist_def get_keylist_def Collect_Keys_Start_def
      ASSERT_BIND_TABLE_EMPTY_def Collect_Context_Keys_def
      CTX_KEYS_HEAD_def CTX_VARS_HEAD_def CTX_LEN_def ctx_keys_def CTX_KEYLIST_def
      alloc_def Collect_Keys_End_def reset_binds_def VAL_TYPESET_CANON_def Val_Init_Typeset_def
      ex_rootkey_def SYM_0_def SYM_SELF_def Let_def)


end
